theory Spec2Isabelle
  imports Main "HOL-Library.Sublist"
begin

section \<open>The editor dev-server bridge (project-server)\<close>

subsection \<open>The pass-through plugin of startServer\<close>

text \<open>
  \<^verbatim>\<open>const baseUrl = '/_src/';\<close> The constant is declared at the top of the module and is
  read nowhere else in it.
\<close>

definition baseUrl :: string where
  "baseUrl = ''/_src/''"

text \<open>
  The plugin closes over \<^verbatim>\<open>workspaceFolder\<close>, \<^verbatim>\<open>analyzer\<close> and \<^verbatim>\<open>fileCache\<close>.
  Of the analyzer it uses three operations, none of which is defined in this module:
  \<^verbatim>\<open>getModulePathFromJsPath(analyzer, filePath)\<close> (imported from paths.js),
  \<^verbatim>\<open>analyzer.program.getSourceFile(modulePath)\<close> and \<^verbatim>\<open>analyzer.program.emit(sourceFile,
  writeFile, ...)\<close>. They are the fields of the record below; \<open>None\<close> is \<^verbatim>\<open>undefined\<close>,
  and \<open>emit\<close> gives the calls of the \<^verbatim>\<open>writeFile\<close> callback that one emit makes, in order,
  each a file name and a text.
\<close>

record ('m, 's) analyzer =
  getModulePathFromJsPath :: "string \<Rightarrow> 'm option"
  getSourceFile :: "'m \<Rightarrow> 's option"
  emit :: "'s \<Rightarrow> (string \<times> string) list"

text \<open>The calls the plugin makes on the analyzer, recorded in the order they are made.\<close>

datatype ('m, 's) compiler_call =
  GetModulePath string
  | GetSourceFile 'm
  | Emit 's

text \<open>
  \<^verbatim>\<open>const fileCache = new Map<string, string>();\<close> The plugin only ever calls \<^verbatim>\<open>get\<close> and
  \<^verbatim>\<open>set\<close> on it, so it is a partial map.
\<close>

record ('m, 's) plugin_state =
  fileCache :: "string \<rightharpoonup> string"
  compilerCalls :: "('m, 's) compiler_call list"

definition init_plugin :: "('m, 's) plugin_state" where
  "init_plugin = \<lparr>fileCache = Map.empty, compilerCalls = []\<rparr>"

text \<open>
  The \<^verbatim>\<open>writeFile\<close> callback handed to \<^verbatim>\<open>emit\<close>, on the pair of the local variables
  \<^verbatim>\<open>emitted\<close> and \<^verbatim>\<open>result\<close>:
  \<^verbatim>\<open>if (fileName === filePath) { emitted = true; result = text; }\<close>
\<close>

definition writeFile :: "string \<Rightarrow> bool \<times> string option \<Rightarrow> string \<times> string \<Rightarrow> bool \<times> string option" where
  "writeFile filePath er w = (if fst w = filePath then (True, Some (snd w)) else er)"

text \<open>
  Lines 69 to 93: \<^verbatim>\<open>let emitted = false; analyzer.program.emit(sourceFile, writeFile, ...)\<close>,
  started with \<^verbatim>\<open>result\<close> undefined (the cache lookup before it found nothing).
\<close>

definition emitFile :: "('m, 's) analyzer \<Rightarrow> 's \<Rightarrow> string \<Rightarrow> bool \<times> string option" where
  "emitFile an sourceFile filePath = foldl (writeFile filePath) (False, None) (emit an sourceFile)"

text \<open>
  \<^verbatim>\<open>passThroughPlugin.serve(context)\<close>, with \<open>jsPath\<close> for \<^verbatim>\<open>context.path\<close> and \<open>fsPath\<close> for
  \<^verbatim>\<open>workspaceFolder.uri.fsPath\<close>. It returns the value handed back to the dev server
  (\<open>None\<close> for \<^verbatim>\<open>undefined\<close>: the dev server then serves the path itself) and the state after
  the call. \<^verbatim>\<open>fileCache.set(filePath, result!)\<close> stores whatever \<^verbatim>\<open>result\<close> holds.
\<close>

definition serve ::
  "string \<Rightarrow> ('m, 's) analyzer \<Rightarrow> ('m, 's) plugin_state \<Rightarrow> string
    \<Rightarrow> string option \<times> ('m, 's) plugin_state" where
  "serve fsPath an st jsPath =
    (if prefix ''/node_modules/'' jsPath then (None, st)
     else
       let filePath = fsPath @ jsPath in
       case fileCache st filePath of
         Some result \<Rightarrow> (Some result, st)
       | None \<Rightarrow>
           let st1 = st\<lparr>compilerCalls := compilerCalls st @ [GetModulePath filePath]\<rparr> in
           (case getModulePathFromJsPath an filePath of
             None \<Rightarrow> (None, st1)
           | Some modulePath \<Rightarrow>
               let st2 = st1\<lparr>compilerCalls := compilerCalls st1 @ [GetSourceFile modulePath]\<rparr> in
               (case getSourceFile an modulePath of
                 None \<Rightarrow> (None, st2)
               | Some sourceFile \<Rightarrow>
                   let st3 = st2\<lparr>compilerCalls := compilerCalls st2 @ [Emit sourceFile]\<rparr>;
                       (emitted, result) = emitFile an sourceFile filePath
                   in if emitted
                      then (result, st3\<lparr>fileCache := (fileCache st3)(filePath := result)\<rparr>)
                      else (None, st3))))"

text \<open>A run of requests against one server: the state after serving each path in turn.\<close>

definition serve_all ::
  "string \<Rightarrow> ('m, 's) analyzer \<Rightarrow> ('m, 's) plugin_state \<Rightarrow> string list \<Rightarrow> ('m, 's) plugin_state" where
  "serve_all fsPath an st jsPaths = foldl (\<lambda>s p. snd (serve fsPath an s p)) st jsPaths"

text \<open>
  The three ways lines 56 to 100 give up on a file: no module for the path, no source
  file for the module, or an emit that never writes the requested file.
\<close>

definition cannot_compile :: "('m, 's) analyzer \<Rightarrow> string \<Rightarrow> bool" where
  "cannot_compile an filePath =
    (case getModulePathFromJsPath an filePath of
      None \<Rightarrow> True
    | Some modulePath \<Rightarrow>
        (case getSourceFile an modulePath of
          None \<Rightarrow> True
        | Some sourceFile \<Rightarrow> filePath \<notin> fst ` set (emit an sourceFile)))"

text \<open>
  A small project for concrete runs: the workspace \<^verbatim>\<open>/ws\<close> with one module, whose emit
  writes a JavaScript file and a declaration file.
\<close>

definition demo_analyzer :: "(string, string) analyzer" where
  "demo_analyzer =
    \<lparr>getModulePathFromJsPath =
        (\<lambda>p. if p = ''/ws/out/button.js'' then Some ''/ws/src/button.ts''
             else if p = ''/ws/out/ghost.js'' then Some ''/ws/src/ghost.ts''
             else if p = ''/ws/out/empty.js'' then Some ''/ws/src/empty.ts''
             else None),
      getSourceFile =
        (\<lambda>m. if m = ''/ws/src/button.ts'' then Some ''button''
             else if m = ''/ws/src/empty.ts'' then Some ''empty''
             else None),
      emit =
        (\<lambda>s. if s = ''button''
             then [(''/ws/out/button.js'', ''export class Button {}''),
                   (''/ws/out/button.d.ts'', ''export declare class Button {}'')]
             else [])\<rparr>"

subsection \<open>The story route of getMiddleware\<close>

text \<open>
  \<^verbatim>\<open>interface LazyAddress { port: string | number; }\<close> startServer creates it as
  \<^verbatim>\<open>{port: 0}\<close> and, once the dev server runs, stores
  \<^verbatim>\<open>typeof address === 'string' ? address : address?.port\<close> in it, which is undefined when
  the server has no address.
\<close>

datatype port = PortNumber nat | PortString string | PortUndefined

record lazy_address =
  port :: port

datatype address = AddressString string | AddressInfo nat | NoAddress

definition initialLazyAddress :: lazy_address where
  "initialLazyAddress = \<lparr>port = PortNumber 0\<rparr>"

definition populate :: "address \<Rightarrow> lazy_address \<Rightarrow> lazy_address" where
  "populate a lazyAddress =
    lazyAddress\<lparr>port :=
      (case a of AddressString s \<Rightarrow> PortString s | AddressInfo p \<Rightarrow> PortNumber p
       | NoAddress \<Rightarrow> PortUndefined)\<rparr>"

text \<open>
  What a template literal makes of an interpolated value. A port number is a natural
  number, printed in decimal.
\<close>

fun number_toString :: "nat \<Rightarrow> string" where
  "number_toString n =
    (if n < 10 then [char_of (48 + n)]
     else number_toString (n div 10) @ [char_of (48 + n mod 10)])"

fun port_toString :: "port \<Rightarrow> string" where
  "port_toString (PortNumber n) = number_toString n"
| "port_toString (PortString s) = s"
| "port_toString PortUndefined = ''undefined''"

text \<open>The three literal parts of the template assigned to \<^verbatim>\<open>context.body\<close>.\<close>

definition body_head :: string where
  \<open>body_head =
''
      <!doctype html>
      <html>
        <head>
          <script type='module' src='http://localhost:''\<close>

definition body_middle :: string where
  \<open>body_middle =
''/frame-entrypoint.js'></script>
          <style id="_defaultStyles"></style>
          <style>
            body, html {
              margin: 0;
              padding: 0;
              width: 100%;
              height: 100%;
            }
            * {
              box-sizing: border-box;
            }
          </style>
        </head>
        <body>
          <ignition-storyboard src=''\<close>

definition body_tail :: string where
  \<open>body_tail =
''></ignition-storyboard>
        </body>
      </html>
    ''\<close>


text \<open>
  The handler of \<^verbatim>\<open>router.get('/story/:path', ...)\<close>: \<open>path\<close> is \<^verbatim>\<open>context.params.path\<close>,
  \<open>lazyAddress\<close> is the object as it is when the request is handled, and the result is
  the response body.
\<close>

definition storySrc :: "lazy_address \<Rightarrow> string \<Rightarrow> string" where
  "storySrc lazyAddress path = ''http://localhost:'' @ port_toString (port lazyAddress) @ ''/'' @ path"

definition story_body :: "nat \<Rightarrow> lazy_address \<Rightarrow> string \<Rightarrow> string" where
  "story_body uiServerPort lazyAddress path =
    body_head @ number_toString uiServerPort @ body_middle @ storySrc lazyAddress path @ body_tail"

subsection \<open>getProjectServer\<close>

text \<open>
  Modelled from the spec: the Deferred class of deferred.js, which is not among the
  sources. The spec calls it a deferred server handle whose shared promise is rejected
  when startup fails; it is a promise together with its \<^verbatim>\<open>resolve\<close> and \<^verbatim>\<open>reject\<close>, and
  a promise that is settled stays as it is.
\<close>

datatype ('s, 'e) promise = Pending | Fulfilled 's | Rejected 'e

definition resolve :: "'s \<Rightarrow> ('s, 'e) promise \<Rightarrow> ('s, 'e) promise" where
  "resolve v p = (case p of Pending \<Rightarrow> Fulfilled v | _ \<Rightarrow> p)"

definition reject :: "'e \<Rightarrow> ('s, 'e) promise \<Rightarrow> ('s, 'e) promise" where
  "reject e p = (case p of Pending \<Rightarrow> Rejected e | _ \<Rightarrow> p)"

text \<open>
  What the \<^verbatim>\<open>catch\<close> of getProjectServer can catch: a value thrown by one of the awaited
  operations, or the TypeError of reading \<^verbatim>\<open>.port\<close> when \<^verbatim>\<open>uiServer.server?.address()\<close>
  gave nothing.
\<close>

datatype 'x error = TypeError | Thrown 'x

text \<open>
  getProjectServer is an async function with two awaits. An activation that has created
  its Deferred is suspended at one of them until the awaited promise settles.
\<close>

datatype await_point = AwaitAll | AwaitStartServer

text \<open>
  The module state and what has happened so far. A Deferred is an object; the cache and
  the suspended activations hold references to it, which are indices into \<open>deferreds\<close>.
  \<open>startups\<close> lists the workspace paths for which the body of
  \<^verbatim>\<open>if (serverDeferred === undefined)\<close> was entered, \<open>startServerCalls\<close> the calls of
  startServer (UI server port, workspace path, analyzer).
\<close>

record ('s, 'x, 'a) bridge =
  serverCache :: "string \<rightharpoonup> nat"
  deferreds :: "('s, 'x error) promise list"
  suspended :: "nat \<rightharpoonup> string \<times> await_point"
  startups :: "string list"
  startServerCalls :: "(nat \<times> string \<times> 'a) list"

definition init_bridge :: "('s, 'x, 'a) bridge" where
  "init_bridge =
    \<lparr>serverCache = Map.empty, deferreds = [], suspended = Map.empty, startups = [],
     startServerCalls = []\<rparr>"

definition settle ::
  "nat \<Rightarrow> (('s, 'x error) promise \<Rightarrow> ('s, 'x error) promise) \<Rightarrow> ('s, 'x, 'a) bridge
    \<Rightarrow> ('s, 'x, 'a) bridge" where
  "settle d f s = s\<lparr>deferreds := (deferreds s)[d := f (deferreds s ! d)], suspended := (suspended s)(d := None)\<rparr>"

text \<open>
  A call of getProjectServer, run to its first await or to its return; \<open>fsPath\<close> is
  \<^verbatim>\<open>workspaceFolder.uri.fsPath\<close>. The result is the Deferred whose promise the call
  returns. JavaScript runs this part without interruption.
\<close>

definition getProjectServer :: "string \<Rightarrow> ('s, 'x, 'a) bridge \<Rightarrow> nat \<times> ('s, 'x, 'a) bridge" where
  "getProjectServer fsPath s =
    (case serverCache s fsPath of
      Some serverDeferred \<Rightarrow> (serverDeferred, s)
    | None \<Rightarrow>
        let serverDeferred = length (deferreds s) in
        (serverDeferred,
         s\<lparr>deferreds := deferreds s @ [Pending],
           serverCache := (serverCache s)(fsPath \<mapsto> serverDeferred),
           startups := startups s @ [fsPath],
           suspended := (suspended s)(serverDeferred \<mapsto> (fsPath, AwaitAll))\<rparr>))"

text \<open>
  The activation with Deferred \<open>d\<close> resumes after
  \<^verbatim>\<open>await Promise.all([getUiServer(), getAnalyzer(workspaceFolder)])\<close>. The promise was
  rejected with \<open>e\<close> (\<open>Inl e\<close>), or fulfilled (\<open>Inr\<close>) with the analyzer and a UI server of
  which only the port of \<^verbatim>\<open>uiServer.server?.address()\<close> matters (\<open>None\<close> when there is no
  address). A getUiServer or getAnalyzer that throws at once is the case \<open>Inl\<close>.
\<close>

definition allSettled ::
  "nat \<Rightarrow> 'x error + nat option \<times> 'a \<Rightarrow> ('s, 'x, 'a) bridge \<Rightarrow> ('s, 'x, 'a) bridge" where
  "allSettled d r s =
    (case suspended s d of
      Some (fsPath, AwaitAll) \<Rightarrow>
        (case r of
          Inl e \<Rightarrow> settle d (reject e) s
        | Inr (None, analyzer) \<Rightarrow> settle d (reject TypeError) s
        | Inr (Some uiServerPort, analyzer) \<Rightarrow>
            s\<lparr>startServerCalls := startServerCalls s @ [(uiServerPort, fsPath, analyzer)],
              suspended := (suspended s)(d \<mapsto> (fsPath, AwaitStartServer))\<rparr>)
    | _ \<Rightarrow> s)"

text \<open>The activation resumes after \<^verbatim>\<open>await startServer(...)\<close>.\<close>

definition startServerSettled ::
  "nat \<Rightarrow> 'x error + 's \<Rightarrow> ('s, 'x, 'a) bridge \<Rightarrow> ('s, 'x, 'a) bridge" where
  "startServerSettled d r s =
    (case suspended s d of
      Some (fsPath, AwaitStartServer) \<Rightarrow>
        (case r of
          Inl e \<Rightarrow> settle d (reject e) s
        | Inr server \<Rightarrow> settle d (resolve server) s)
    | _ \<Rightarrow> s)"

text \<open>
  Everything that can happen to the module, in any order: a caller calls
  getProjectServer, or an awaited promise of some activation settles. An event for an
  activation that is not waiting for it changes nothing.
\<close>

datatype ('s, 'x, 'a) event =
  Call string
  | AllSettled nat "'x error + nat option \<times> 'a"
  | StartServerSettled nat "'x error + 's"

fun step :: "('s, 'x, 'a) bridge \<Rightarrow> ('s, 'x, 'a) event \<Rightarrow> ('s, 'x, 'a) bridge" where
  "step s (Call fsPath) = snd (getProjectServer fsPath s)"
| "step s (AllSettled d r) = allSettled d r s"
| "step s (StartServerSettled d r) = startServerSettled d r s"

definition run :: "('s, 'x, 'a) bridge \<Rightarrow> ('s, 'x, 'a) event list \<Rightarrow> ('s, 'x, 'a) bridge" where
  "run s evs = foldl step s evs"

text \<open>
  The events with which startup fails, by the await the activation is suspended at, and
  the error the \<^verbatim>\<open>catch\<close> block then holds.
\<close>

fun startup_failure :: "await_point \<Rightarrow> ('s, 'x, 'a) event \<Rightarrow> (nat \<times> 'x error) option" where
  "startup_failure AwaitAll (AllSettled d (Inl e)) = Some (d, e)"
| "startup_failure AwaitAll (AllSettled d (Inr (None, analyzer))) = Some (d, TypeError)"
| "startup_failure AwaitStartServer (StartServerSettled d (Inl e)) = Some (d, e)"
| "startup_failure _ _ = None"


text \<open>The calls of startServer made for one workspace path.\<close>

definition server_calls_for :: "string \<Rightarrow> ('s, 'x, 'a) bridge \<Rightarrow> (nat \<times> string \<times> 'a) list" where
  "server_calls_for fsPath s = filter (\<lambda>c. fst (snd c) = fsPath) (startServerCalls s)"

text \<open>
  What holds of the module state whatever has happened: cached and suspended Deferreds
  exist, a suspended activation is the one cached for its path and its Deferred is
  pending, a path has one startup when it is cached and none otherwise, and startServer
  is called for a path at most once, after its activation has passed the first await.
\<close>

definition bridge_inv :: "('s, 'x, 'a) bridge \<Rightarrow> bool" where
  "bridge_inv s =
    ((\<forall>p d. serverCache s p = Some d \<longrightarrow> d < length (deferreds s)) \<and>
     (\<forall>d p ph. suspended s d = Some (p, ph) \<longrightarrow> serverCache s p = Some d \<and> deferreds s ! d = Pending) \<and>
     (\<forall>p. count_list (startups s) p = (if serverCache s p = None then 0 else 1)) \<and>
     (\<forall>p. serverCache s p = None \<longrightarrow> server_calls_for p s = []) \<and>
     (\<forall>d p. suspended s d = Some (p, AwaitAll) \<longrightarrow> server_calls_for p s = []) \<and>
     (\<forall>p. length (server_calls_for p s) \<le> 1))"

section \<open>The React wrapper for custom elements (createComponent)\<close>

subsection \<open>Values\<close>

text \<open>
  Props are \<^verbatim>\<open>unknown\<close> values. What the wrapper does with a value is to compare it with
  \<^verbatim>\<open>undefined\<close> and with another value under \<^verbatim>\<open>!==\<close>, which holds of NaN and itself and
  is inequality otherwise (of references, for functions and objects).
\<close>

datatype 'a jsval = Undefined | NaN | Val 'a

definition strict_neq :: "'a jsval \<Rightarrow> 'a jsval \<Rightarrow> bool" where
  "strict_neq a b = (a = NaN \<or> b = NaN \<or> a \<noteq> b)"

subsection \<open>addOrUpdateEventListener and setProperty\<close>

text \<open>
  What the wrapper does to an element, in the order it does it: the calls of
  \<^verbatim>\<open>addEventListener\<close> and \<^verbatim>\<open>removeEventListener\<close> with the handler object passed, and the
  assignments \<^verbatim>\<open>node[name] = value\<close>.
\<close>

datatype ('n, 'a) dom_call =
  AddEventListener 'n string nat
  | RemoveEventListener 'n string nat
  | SetProperty 'n string "'a jsval"

text \<open>
  \<open>listenedEvents\<close> is the module's \<^verbatim>\<open>WeakMap<Element, Map<string, EventListenerObject>>\<close>.
  A handler object \<^verbatim>\<open>{handleEvent: listener}\<close> is shared between that map and the node's
  listener list, so both hold a reference to it: an index into \<open>handlerObjects\<close>, which
  gives the current \<^verbatim>\<open>handleEvent\<close> of each handler object created so far.
  \<open>eventListeners\<close> is the event listener list of the DOM: node, event type and callback.
\<close>

record ('n, 'a) dom_state =
  listenedEvents :: "'n \<rightharpoonup> (string \<rightharpoonup> nat)"
  handlerObjects :: "'a jsval list"
  eventListeners :: "('n \<times> string \<times> nat) list"
  domCalls :: "('n, 'a) dom_call list"

definition init_dom :: "('n, 'a) dom_state" where
  "init_dom = \<lparr>listenedEvents = Map.empty, handlerObjects = [], eventListeners = [], domCalls = []\<rparr>"

text \<open>
  The DOM's side of the two calls: a listener already in the list is not added again,
  and removing takes it out of the list.
\<close>

definition addEventListener :: "'n \<Rightarrow> string \<Rightarrow> nat \<Rightarrow> ('n, 'a) dom_state \<Rightarrow> ('n, 'a) dom_state" where
  "addEventListener node event handler s =
    s\<lparr>eventListeners :=
        (if (node, event, handler) \<in> set (eventListeners s) then eventListeners s
         else eventListeners s @ [(node, event, handler)]),
      domCalls := domCalls s @ [AddEventListener node event handler]\<rparr>"

definition removeEventListener :: "'n \<Rightarrow> string \<Rightarrow> nat \<Rightarrow> ('n, 'a) dom_state \<Rightarrow> ('n, 'a) dom_state" where
  "removeEventListener node event handler s =
    s\<lparr>eventListeners := removeAll (node, event, handler) (eventListeners s),
      domCalls := domCalls s @ [RemoveEventListener node event handler]\<rparr>"

definition addOrUpdateEventListener ::
  "'n \<Rightarrow> string \<Rightarrow> 'a jsval \<Rightarrow> ('n, 'a) dom_state \<Rightarrow> ('n, 'a) dom_state" where
  "addOrUpdateEventListener node event listener s =
    (let events = (case listenedEvents s node of None \<Rightarrow> Map.empty | Some m \<Rightarrow> m);
         s0 = s\<lparr>listenedEvents := (listenedEvents s)(node \<mapsto> events)\<rparr>
     in if listener \<noteq> Undefined then
          (case events event of
            None \<Rightarrow>
              let handler = length (handlerObjects s0) in
              addEventListener node event handler
                (s0\<lparr>listenedEvents := (listenedEvents s0)(node \<mapsto> events(event \<mapsto> handler)),
                    handlerObjects := handlerObjects s0 @ [listener]\<rparr>)
          | Some handler \<Rightarrow> s0\<lparr>handlerObjects := (handlerObjects s0)[handler := listener]\<rparr>)
        else
          (case events event of
            Some handler \<Rightarrow>
              removeEventListener node event handler
                (s0\<lparr>listenedEvents := (listenedEvents s0)(node \<mapsto> events(event := None))\<rparr>)
          | None \<Rightarrow> s0))"

text \<open>The handler the module tracks for a node and an event, and the listeners the DOM holds.\<close>

definition tracked :: "('n, 'a) dom_state \<Rightarrow> 'n \<Rightarrow> string \<Rightarrow> nat option" where
  "tracked s node event = (case listenedEvents s node of None \<Rightarrow> None | Some m \<Rightarrow> m event)"

definition listeners_of :: "('n, 'a) dom_state \<Rightarrow> 'n \<Rightarrow> string \<Rightarrow> ('n \<times> string \<times> nat) list" where
  "listeners_of s node event = filter (\<lambda>l. fst l = node \<and> fst (snd l) = event) (eventListeners s)"

text \<open>Any sequence of calls of addOrUpdateEventListener: node, event and listener of each.\<close>

definition listen_all :: "('n, 'a) dom_state \<Rightarrow> ('n \<times> string \<times> 'a jsval) list \<Rightarrow> ('n, 'a) dom_state" where
  "listen_all s calls = foldl (\<lambda>s c. addOrUpdateEventListener (fst c) (fst (snd c)) (snd (snd c)) s) s calls"

text \<open>
  What holds after any such sequence: the DOM holds, for a node and an event, exactly
  the handler the module tracks for them, and every tracked handler is an object that
  was created.
\<close>

definition dom_inv :: "('n, 'a) dom_state \<Rightarrow> bool" where
  "dom_inv s =
    ((\<forall>node event. listeners_of s node event =
        (case tracked s node event of None \<Rightarrow> [] | Some h \<Rightarrow> [(node, event, h)])) \<and>
     (\<forall>node event h. tracked s node event = Some h \<longrightarrow> h < length (handlerObjects s)))"

text \<open>
  \<^verbatim>\<open>events?.[name]\<close>: \<open>events\<close> is the optional \<^verbatim>\<open>EventNames\<close> record of the component,
  from prop names to event names. The names setProperty is called with have been filtered
  by render (they are event props, or no names of \<^verbatim>\<open>HTMLElement.prototype\<close>), so the lookup
  is one among the record's own entries.
\<close>

definition event_of :: "(string \<rightharpoonup> string) option \<Rightarrow> string \<Rightarrow> string option" where
  "event_of events name = (case events of None \<Rightarrow> None | Some m \<Rightarrow> m name)"

definition setProperty ::
  "'n \<Rightarrow> string \<Rightarrow> 'a jsval \<Rightarrow> 'a jsval \<Rightarrow> (string \<rightharpoonup> string) option \<Rightarrow> ('n, 'a) dom_state
    \<Rightarrow> ('n, 'a) dom_state" where
  "setProperty node name v old events s =
    (case event_of events name of
      Some event \<Rightarrow> if strict_neq v old then addOrUpdateEventListener node event v s else s
    | None \<Rightarrow> s\<lparr>domCalls := domCalls s @ [SetProperty node name v]\<rparr>)"

text \<open>
  Any sequence of calls of setProperty, its only caller being \<^verbatim>\<open>_updateElement\<close>: node,
  name, value, old value and events of each.
\<close>

definition set_all ::
  "('n, 'a) dom_state \<Rightarrow> ('n \<times> string \<times> 'a jsval \<times> 'a jsval \<times> (string \<rightharpoonup> string) option) list
    \<Rightarrow> ('n, 'a) dom_state" where
  "set_all s calls =
    foldl (\<lambda>s (node, name, v, old, events). setProperty node name v old events s) s calls"

subsection \<open>The props loop of ReactComponent.render\<close>

definition reservedReactProperties :: "string set" where
  "reservedReactProperties = {''children'', ''localName'', ''ref'', ''style'', ''className''}"

text \<open>
  What createComponent fixes for a component: \<open>eventProps\<close> is
  \<^verbatim>\<open>new Set(Object.keys(events ?? {}))\<close>; \<open>htmlElementProto\<close> and \<open>elementProto\<close> are the
  names \<open>k\<close> for which \<^verbatim>\<open>k in HTMLElement.prototype\<close> and \<^verbatim>\<open>k in element.prototype\<close> hold.
\<close>

record component =
  eventProps :: "string set"
  htmlElementProto :: "string set"
  elementProto :: "string set"

definition eventProps_of :: "(string \<rightharpoonup> string) option \<Rightarrow> string set" where
  "eventProps_of events = (case events of None \<Rightarrow> {} | Some m \<Rightarrow> dom m)"

text \<open>The condition of the \<^verbatim>\<open>if\<close> in the loop.\<close>

definition is_element_prop :: "component \<Rightarrow> string \<Rightarrow> bool" where
  "is_element_prop c k =
    (k \<in> eventProps c \<or>
      (k \<notin> reservedReactProperties \<and> k \<notin> htmlElementProto c \<and> k \<in> elementProto c))"

definition react_name :: "string \<Rightarrow> string" where
  "react_name k = (if k = ''className'' then ''class'' else k)"

text \<open>
  One turn of \<^verbatim>\<open>for (const [k, v] of Object.entries(this.props))\<close>, on the pair of
  \<^verbatim>\<open>this._elementProps\<close> and \<^verbatim>\<open>props\<close>.
\<close>

definition render_entry ::
  "component \<Rightarrow> (string \<rightharpoonup> 'v) \<times> (string \<rightharpoonup> 'v) \<Rightarrow> string \<times> 'v
    \<Rightarrow> (string \<rightharpoonup> 'v) \<times> (string \<rightharpoonup> 'v)" where
  "render_entry c acc kv =
    (if fst kv = ''__forwardedRef'' then acc
     else if is_element_prop c (fst kv) then ((fst acc)(fst kv \<mapsto> snd kv), snd acc)
     else (fst acc, (snd acc)(react_name (fst kv) \<mapsto> snd kv)))"

text \<open>
  The loop, started from \<^verbatim>\<open>this._elementProps = {}\<close> and \<^verbatim>\<open>props = {ref: this._ref}\<close>.
  \<open>entries\<close> is \<^verbatim>\<open>Object.entries(this.props)\<close> and \<open>ref\<close> the callback render has stored in
  \<^verbatim>\<open>this._ref\<close>. The result is \<^verbatim>\<open>this._elementProps\<close> and the props handed to
  \<^verbatim>\<open>createElement\<close>.
\<close>

definition render_props ::
  "component \<Rightarrow> 'v \<Rightarrow> (string \<times> 'v) list \<Rightarrow> (string \<rightharpoonup> 'v) \<times> (string \<rightharpoonup> 'v)" where
  "render_props c ref entries = foldl (render_entry c) (Map.empty, [''ref'' \<mapsto> ref]) entries"

text \<open>
  The props that take the else branch of the loop, under the names they are assigned to.
\<close>

definition react_entries :: "component \<Rightarrow> (string \<times> 'v) list \<Rightarrow> (string \<times> 'v) list" where
  "react_entries c entries =
    map (\<lambda>kv. (react_name (fst kv), snd kv))
      (filter (\<lambda>kv. fst kv \<noteq> ''__forwardedRef'' \<and> \<not> is_element_prop c (fst kv)) entries)"

text \<open>The props that take the then branch of the loop.\<close>

definition element_entries :: "component \<Rightarrow> (string \<times> 'v) list \<Rightarrow> (string \<times> 'v) list" where
  "element_entries c entries =
    filter (\<lambda>kv. fst kv \<noteq> ''__forwardedRef'' \<and> is_element_prop c (fst kv)) entries"

text \<open>A component with one event prop and one property of its own, for concrete runs.\<close>

definition demo_component :: component where
  "demo_component =
    \<lparr>eventProps = {''onActivate''},
     htmlElementProto = {''className'', ''style'', ''title'', ''hidden'', ''id''},
     elementProto = {''className'', ''style'', ''title'', ''hidden'', ''id'', ''label''}\<rparr>"

section \<open>Verified properties\<close>

subsection \<open>Facts about the plugin\<close>

lemma writeFile_fold:
  "foldl (writeFile fp) (e, r) ws =
    (if fp \<in> fst ` set ws then (True, map_of (rev ws) fp) else (e, r))"
proof (induction ws arbitrary: e r)
  case Nil
  show ?case by simp
next
  case (Cons w ws)
  obtain f t where w: "w = (f, t)" by (cases w)
  have step: "writeFile fp (e, r) w = (if f = fp then (True, Some t) else (e, r))"
    by (simp add: writeFile_def w)
  have rest: "foldl (writeFile fp) (writeFile fp (e, r) w) ws =
      (if fp \<in> fst ` set ws then (True, map_of (rev ws) fp) else writeFile fp (e, r) w)"
    by (cases "writeFile fp (e, r) w") (simp add: Cons.IH)
  have look: "map_of (rev (w # ws)) fp =
      (if fp \<in> fst ` set ws then map_of (rev ws) fp else if f = fp then Some t else None)"
  proof (cases "fp \<in> fst ` set ws")
    case True
    then obtain t' where "map_of (rev ws) fp = Some t'"
      by (metis image_set map_of_eq_None_iff not_None_eq set_rev)
    with True show ?thesis by (simp add: w map_add_def)
  next
    case False
    then have "map_of (rev ws) fp = None"
      by (simp add: map_of_eq_None_iff)
    with False show ?thesis by (simp add: w map_add_def)
  qed
  have "foldl (writeFile fp) (e, r) (w # ws) = foldl (writeFile fp) (writeFile fp (e, r) w) ws"
    by simp
  also have "\<dots> =
      (if fp \<in> fst ` set ws then (True, map_of (rev ws) fp) else writeFile fp (e, r) w)"
    by (rule rest)
  also have "\<dots> = (if fp \<in> fst ` set (w # ws) then (True, map_of (rev (w # ws)) fp) else (e, r))"
    unfolding look step by (auto simp: w)
  finally show ?case .
qed

lemma emitFile_eq:
  "emitFile an sf fp =
    (if fp \<in> fst ` set (emit an sf) then (True, map_of (rev (emit an sf)) fp) else (False, None))"
  by (simp add: emitFile_def writeFile_fold)

lemma emitFile_text:
  "fp \<in> fst ` set ws \<Longrightarrow> \<exists>t. map_of (rev ws) fp = Some t"
  by (metis image_set map_of_eq_None_iff not_None_eq set_rev)

lemma serve_cached:
  "\<not> prefix ''/node_modules/'' jsPath \<Longrightarrow> fileCache st (fsPath @ jsPath) = Some t
    \<Longrightarrow> serve fsPath an st jsPath = (Some t, st)"
  by (simp add: serve_def)

lemma serve_keeps_cache:
  assumes "fileCache st fp = Some t"
  shows "fileCache (snd (serve fsPath an st jsPath)) fp = Some t"
  using assms
  by (auto simp: serve_def Let_def split: option.splits prod.splits)

lemma serve_all_keeps_cache:
  "fileCache st fp = Some t \<Longrightarrow> fileCache (serve_all fsPath an st jsPaths) fp = Some t"
  unfolding serve_all_def
  by (induction jsPaths arbitrary: st) (simp_all add: serve_keeps_cache)

lemma serve_compiles:
  assumes "\<not> prefix ''/node_modules/'' jsPath"
    and "fileCache st (fsPath @ jsPath) = None"
    and "getModulePathFromJsPath an (fsPath @ jsPath) = Some m"
    and "getSourceFile an m = Some sf"
    and "emitFile an sf (fsPath @ jsPath) = (True, Some text)"
  shows "serve fsPath an st jsPath =
    (Some text,
     st\<lparr>fileCache := (fileCache st)(fsPath @ jsPath \<mapsto> text),
        compilerCalls := compilerCalls st @ [GetModulePath (fsPath @ jsPath), GetSourceFile m, Emit sf]\<rparr>)"
  using assms by (simp add: serve_def Let_def)

lemma serve_result_cached:
  assumes "fst (serve fsPath an st jsPath) = Some text"
  shows "fileCache (snd (serve fsPath an st jsPath)) (fsPath @ jsPath) = Some text"
    and "\<not> prefix ''/node_modules/'' jsPath"
  using assms
  by (auto simp: serve_def Let_def split: option.splits prod.splits if_splits)

lemma serve_fallthrough:
  assumes "cannot_compile an (fsPath @ jsPath)" and "fileCache st (fsPath @ jsPath) = None"
  shows "fst (serve fsPath an st jsPath) = None"
    and "fileCache (snd (serve fsPath an st jsPath)) = fileCache st"
  using assms
  by (auto simp: serve_def Let_def cannot_compile_def emitFile_eq split: option.splits prod.splits if_splits)

lemma can_compile_emits:
  assumes "\<not> cannot_compile an fp"
  obtains m sf t where "getModulePathFromJsPath an fp = Some m"
    and "getSourceFile an m = Some sf" and "emitFile an sf fp = (True, Some t)"
proof -
  from assms obtain m sf where m: "getModulePathFromJsPath an fp = Some m"
    and sf: "getSourceFile an m = Some sf" and w: "fp \<in> fst ` set (emit an sf)"
    by (auto simp: cannot_compile_def split: option.splits)
  from w obtain t where "map_of (rev (emit an sf)) fp = Some t"
    using emitFile_text by fastforce
  with w have "emitFile an sf fp = (True, Some t)"
    by (simp add: emitFile_eq)
  with m sf show thesis by (rule that)
qed

lemma serve_cache_change:
  "fileCache (snd (serve fsPath an st jsPath)) = fileCache st \<or>
    (\<not> cannot_compile an (fsPath @ jsPath) \<and>
      (\<exists>text. fileCache (snd (serve fsPath an st jsPath)) = (fileCache st)(fsPath @ jsPath \<mapsto> text)))"
proof (cases "cannot_compile an (fsPath @ jsPath)")
  case True
  then show ?thesis
    by (auto simp: serve_def Let_def cannot_compile_def emitFile_eq split: option.splits)
next
  case False
  then obtain m sf t where "getModulePathFromJsPath an (fsPath @ jsPath) = Some m"
    and "getSourceFile an m = Some sf" and "emitFile an sf (fsPath @ jsPath) = (True, Some t)"
    by (rule can_compile_emits)
  with False show ?thesis
    by (auto simp: serve_def Let_def split: option.splits)
qed

lemma serve_cache_sound:
  assumes "\<And>fp t. fileCache st fp = Some t \<Longrightarrow> \<not> cannot_compile an fp"
    and "fileCache (snd (serve fsPath an st jsPath)) fp = Some t"
  shows "\<not> cannot_compile an fp"
  using serve_cache_change [of fsPath an st jsPath] assms
  by (auto split: if_splits)

lemma serve_all_cache_sound:
  assumes "\<And>fp t. fileCache st fp = Some t \<Longrightarrow> \<not> cannot_compile an fp"
    and "fileCache (serve_all fsPath an st jsPaths) fp = Some t"
  shows "\<not> cannot_compile an fp"
  using assms unfolding serve_all_def
proof (induction jsPaths arbitrary: st)
  case Nil
  then show ?case by simp
next
  case (Cons p ps)
  show ?case
  proof (rule Cons.IH [of "snd (serve fsPath an st p)"])
    show "\<And>fp t. fileCache (snd (serve fsPath an st p)) fp = Some t \<Longrightarrow> \<not> cannot_compile an fp"
      using Cons.prems(1) serve_cache_sound by blast
    show "fileCache (foldl (\<lambda>s p. snd (serve fsPath an s p)) (snd (serve fsPath an st p)) ps) fp = Some t"
      using Cons.prems(2) by simp
  qed
qed

lemma demo_button:
  "getModulePathFromJsPath demo_analyzer ''/ws/out/button.js'' = Some ''/ws/src/button.ts''"
  "getSourceFile demo_analyzer ''/ws/src/button.ts'' = Some ''button''"
  "emitFile demo_analyzer ''button'' ''/ws/out/button.js'' = (True, Some ''export class Button {}'')"
  by (simp_all add: demo_analyzer_def emitFile_def writeFile_def)

subsection \<open>The plugin: claims C3 to C6\<close>

text \<open>
  Claim C3. The plugin memoizes compilation by absolute file path. When a path that
  is not cached and is not under \<^verbatim>\<open>/node_modules/\<close> has a module and a source file, and
  the emit writes the file, serve returns the emitted text and stores it under the file
  path, after one module lookup, one source file lookup and one emit. Whatever requests
  are served afterwards, every later request that maps to the same file path returns
  exactly that text and leaves the state as it is: the cache entry is still there and no
  call is made on the analyzer.
\<close>

theorem serve_memoizes:
  assumes "\<not> prefix ''/node_modules/'' jsPath"
    and "fileCache st (fsPath @ jsPath) = None"
    and "getModulePathFromJsPath an (fsPath @ jsPath) = Some m"
    and "getSourceFile an m = Some sf"
    and "emitFile an sf (fsPath @ jsPath) = (True, Some text)"
  shows "serve fsPath an st jsPath =
      (Some text,
       st\<lparr>fileCache := (fileCache st)(fsPath @ jsPath \<mapsto> text),
          compilerCalls := compilerCalls st @
            [GetModulePath (fsPath @ jsPath), GetSourceFile m, Emit sf]\<rparr>) \<and>
    (\<forall>later jsPath'. fsPath @ jsPath' = fsPath @ jsPath \<longrightarrow>
      serve fsPath an (serve_all fsPath an (snd (serve fsPath an st jsPath)) later) jsPath' =
        (Some text, serve_all fsPath an (snd (serve fsPath an st jsPath)) later))"
proof (intro conjI allI impI)
  show first: "serve fsPath an st jsPath =
      (Some text,
       st\<lparr>fileCache := (fileCache st)(fsPath @ jsPath \<mapsto> text),
          compilerCalls := compilerCalls st @
            [GetModulePath (fsPath @ jsPath), GetSourceFile m, Emit sf]\<rparr>)"
    using assms by (rule serve_compiles)
  fix later jsPath'
  assume "fsPath @ jsPath' = fsPath @ jsPath"
  then have same: "jsPath' = jsPath" by simp
  have "fileCache (snd (serve fsPath an st jsPath)) (fsPath @ jsPath) = Some text"
    by (simp add: first)
  then have "fileCache (serve_all fsPath an (snd (serve fsPath an st jsPath)) later) (fsPath @ jsPath)
      = Some text"
    by (rule serve_all_keeps_cache)
  with assms(1) show "serve fsPath an (serve_all fsPath an (snd (serve fsPath an st jsPath)) later) jsPath' =
        (Some text, serve_all fsPath an (snd (serve fsPath an st jsPath)) later)"
    unfolding same by (rule serve_cached)
qed

text \<open>
  The theorem at work on the demo project: the first request for the button compiles
  it, and after three more requests a further one is answered from the cache.
\<close>

theorem serve_memoizes_witness:
  "serve ''/ws'' demo_analyzer init_plugin ''/out/button.js'' =
      (Some ''export class Button {}'',
       \<lparr>fileCache = [''/ws/out/button.js'' \<mapsto> ''export class Button {}''],
        compilerCalls = [GetModulePath ''/ws/out/button.js'', GetSourceFile ''/ws/src/button.ts'',
          Emit ''button'']\<rparr>) \<and>
   serve ''/ws'' demo_analyzer
      (serve_all ''/ws'' demo_analyzer
        (snd (serve ''/ws'' demo_analyzer init_plugin ''/out/button.js''))
        [''/out/ghost.js'', ''/node_modules/lit/index.js'', ''/out/button.js'']) ''/out/button.js'' =
      (Some ''export class Button {}'',
       serve_all ''/ws'' demo_analyzer
        (snd (serve ''/ws'' demo_analyzer init_plugin ''/out/button.js''))
        [''/out/ghost.js'', ''/node_modules/lit/index.js'', ''/out/button.js''])"
proof -
  have h1: "\<not> prefix ''/node_modules/'' ''/out/button.js''" by simp
  have h2: "fileCache (init_plugin :: (string, string) plugin_state) (''/ws'' @ ''/out/button.js'') = None"
    by (simp add: init_plugin_def)
  have h3: "getModulePathFromJsPath demo_analyzer (''/ws'' @ ''/out/button.js'') = Some ''/ws/src/button.ts''"
    by (simp add: demo_button)
  have h4: "getSourceFile demo_analyzer ''/ws/src/button.ts'' = Some ''button''"
    by (simp add: demo_button)
  have h5: "emitFile demo_analyzer ''button'' (''/ws'' @ ''/out/button.js'') = (True, Some ''export class Button {}'')"
    by (simp add: demo_button)
  note memo = serve_memoizes [OF h1 h2 h3 h4 h5]
  note again = memo [THEN conjunct2, rule_format, OF refl,
      where later = "[''/out/ghost.js'', ''/node_modules/lit/index.js'', ''/out/button.js'']"]
  from memo [THEN conjunct1] again show ?thesis
    by (simp add: init_plugin_def)
qed

text \<open>
  Claim C4 says that a request path must begin with \<^verbatim>\<open>/_src/\<close> for the plugin to compile
  it and return emitted text. The code has no such test: the demo project's button is
  compiled and served for a path that does not begin with \<^verbatim>\<open>baseUrl\<close>.
\<close>

theorem serve_ignores_baseUrl_counterexample:
  "\<not> prefix baseUrl ''/out/button.js'' \<and>
   fst (serve ''/ws'' demo_analyzer init_plugin ''/out/button.js'') = Some ''export class Button {}''"
  by (simp add: baseUrl_def serve_def init_plugin_def demo_button Let_def)

text \<open>
  Claim C4, amended. What decides whether serve returns text is independent of
  \<^verbatim>\<open>/_src/\<close>: serve returns nothing exactly when the request path starts with
  \<^verbatim>\<open>/node_modules/\<close>, or the file (workspace path followed by the request path) is neither
  cached nor compilable. Every other request path is answered with text, whatever its
  prefix.
\<close>

theorem serve_any_prefix:
  "(fst (serve fsPath an st jsPath) = None) =
    (prefix ''/node_modules/'' jsPath \<or>
      (fileCache st (fsPath @ jsPath) = None \<and> cannot_compile an (fsPath @ jsPath)))"
proof (cases "prefix ''/node_modules/'' jsPath")
  case True
  then show ?thesis by (simp add: serve_def)
next
  case nm: False
  show ?thesis
  proof (cases "fileCache st (fsPath @ jsPath)")
    case (Some t)
    with nm show ?thesis by (simp add: serve_cached)
  next
    case None
    show ?thesis
    proof (cases "cannot_compile an (fsPath @ jsPath)")
      case True
      with nm None show ?thesis by (simp add: serve_fallthrough)
    next
      case False
      then obtain m sf t where "getModulePathFromJsPath an (fsPath @ jsPath) = Some m"
        and "getSourceFile an m = Some sf" and "emitFile an sf (fsPath @ jsPath) = (True, Some t)"
        by (rule can_compile_emits)
      with nm None have "serve fsPath an st jsPath =
        (Some t, st\<lparr>fileCache := (fileCache st)(fsPath @ jsPath \<mapsto> t),
          compilerCalls := compilerCalls st @ [GetModulePath (fsPath @ jsPath), GetSourceFile m, Emit sf]\<rparr>)"
        by (simp add: serve_compiles)
      with nm None False show ?thesis by simp
    qed
  qed
qed

text \<open>
  Claim C5. The file cache is empty when the server starts and only serve writes to it.
  Whatever requests were served before, when the file of a request cannot be compiled
  (its path maps to no module, the program has no source file for the module, or the emit
  writes no file of that path), serve returns nothing, so that the dev server serves
  the path itself, and the file cache is as it was.
\<close>

theorem serve_falls_through:
  assumes "cannot_compile an (fsPath @ jsPath)"
  shows "fst (serve fsPath an (serve_all fsPath an init_plugin earlier) jsPath) = None \<and>
    fileCache (snd (serve fsPath an (serve_all fsPath an init_plugin earlier) jsPath)) =
      fileCache (serve_all fsPath an init_plugin earlier)"
proof -
  have "fileCache (serve_all fsPath an init_plugin earlier) (fsPath @ jsPath) = None"
  proof (cases "fileCache (serve_all fsPath an init_plugin earlier) (fsPath @ jsPath)")
    case None
    then show ?thesis .
  next
    case (Some t)
    have "\<not> cannot_compile an (fsPath @ jsPath)"
    proof (rule serve_all_cache_sound [OF _ Some])
      fix fp t
      assume "fileCache (init_plugin :: ('a, 'b) plugin_state) fp = Some t"
      then show "\<not> cannot_compile an fp" by (simp add: init_plugin_def)
    qed
    with assms show ?thesis by simp
  qed
  with assms show ?thesis by (simp add: serve_fallthrough)
qed

text \<open>
  The three ways of failing, each on the demo project after the button has been served:
  a path with no module, a module with no source file, and an emit that writes nothing.
\<close>

theorem serve_falls_through_witness:
  "cannot_compile demo_analyzer (''/ws'' @ ''/out/missing.js'') \<and>
   cannot_compile demo_analyzer (''/ws'' @ ''/out/ghost.js'') \<and>
   cannot_compile demo_analyzer (''/ws'' @ ''/out/empty.js'') \<and>
   fst (serve ''/ws'' demo_analyzer (serve_all ''/ws'' demo_analyzer init_plugin [''/out/button.js''])
      ''/out/missing.js'') = None \<and>
   fst (serve ''/ws'' demo_analyzer (serve_all ''/ws'' demo_analyzer init_plugin [''/out/button.js''])
      ''/out/ghost.js'') = None \<and>
   fst (serve ''/ws'' demo_analyzer (serve_all ''/ws'' demo_analyzer init_plugin [''/out/button.js''])
      ''/out/empty.js'') = None \<and>
   fileCache (snd (serve ''/ws'' demo_analyzer
      (serve_all ''/ws'' demo_analyzer init_plugin [''/out/button.js'']) ''/out/empty.js'')) =
     [''/ws/out/button.js'' \<mapsto> ''export class Button {}'']"
proof -
  have a: "cannot_compile demo_analyzer (''/ws'' @ ''/out/missing.js'')"
    by (simp add: cannot_compile_def demo_analyzer_def)
  have b: "cannot_compile demo_analyzer (''/ws'' @ ''/out/ghost.js'')"
    by (simp add: cannot_compile_def demo_analyzer_def)
  have c: "cannot_compile demo_analyzer (''/ws'' @ ''/out/empty.js'')"
    by (simp add: cannot_compile_def demo_analyzer_def)
  have st: "fileCache (serve_all ''/ws'' demo_analyzer init_plugin [''/out/button.js'']) =
      [''/ws/out/button.js'' \<mapsto> ''export class Button {}'']"
    by (simp add: serve_all_def serve_def init_plugin_def demo_button Let_def)
  from serve_falls_through [OF a, of "[''/out/button.js'']"]
    serve_falls_through [OF b, of "[''/out/button.js'']"]
    serve_falls_through [OF c, of "[''/out/button.js'']"] a b c st
  show ?thesis by simp
qed

text \<open>
  Claim C6. For a request path that starts with \<^verbatim>\<open>/node_modules/\<close>, serve returns
  nothing at once: the state after the call is the state before it, so the file cache is
  unchanged and no module lookup, source file lookup or emit has been made.
\<close>

theorem serve_skips_node_modules:
  "prefix ''/node_modules/'' jsPath \<Longrightarrow> serve fsPath an st jsPath = (None, st)"
  by (simp add: serve_def)

theorem serve_skips_node_modules_witness:
  "prefix ''/node_modules/'' ''/node_modules/lit/index.js'' \<and>
   serve ''/ws'' demo_analyzer
     \<lparr>fileCache = [''/ws/out/button.js'' \<mapsto> ''export class Button {}''], compilerCalls = []\<rparr>
     ''/node_modules/lit/index.js'' =
    (None, \<lparr>fileCache = [''/ws/out/button.js'' \<mapsto> ''export class Button {}''], compilerCalls = []\<rparr>)"
proof -
  have h: "prefix ''/node_modules/'' ''/node_modules/lit/index.js''" by simp
  from serve_skips_node_modules [OF h] h show ?thesis by simp
qed

subsection \<open>The story route: claim C7\<close>





lemma number_toString_example: "number_toString 8000 = ''8000'' \<and> number_toString 0 = ''0''"
  by (simp add: char_of_def bit_Suc_0_iff)

text \<open>
  The page for the story \<^verbatim>\<open>button.js\<close>, with the UI server on port 3000 and the dev
  server, once started, on port 8000.
\<close>

lemma story_body_example:
  \<open>story_body 3000 (populate (AddressInfo 8000) initialLazyAddress) ''button.js'' =
''
      <!doctype html>
      <html>
        <head>
          <script type='module' src='http://localhost:3000/frame-entrypoint.js'></script>
          <style id="_defaultStyles"></style>
          <style>
            body, html {
              margin: 0;
              padding: 0;
              width: 100%;
              height: 100%;
            }
            * {
              box-sizing: border-box;
            }
          </style>
        </head>
        <body>
          <ignition-storyboard src=http://localhost:8000/button.js></ignition-storyboard>
        </body>
      </html>
    ''\<close>
  by (simp add: story_body_def storySrc_def populate_def initialLazyAddress_def body_head_def
      body_middle_def body_tail_def char_of_def bit_Suc_0_iff)

subsection \<open>Facts about getProjectServer\<close>

lemma bridge_inv_init: "bridge_inv init_bridge"
  by (simp add: bridge_inv_def init_bridge_def server_calls_for_def)

lemma bridge_inv_call:
  assumes "bridge_inv s"
  shows "bridge_inv (snd (getProjectServer p s))"
proof (cases "serverCache s p")
  case (Some d)
  with assms show ?thesis by (simp add: getProjectServer_def)
next
  case None
  have fresh: "suspended s (length (deferreds s)) = None"
  proof (cases "suspended s (length (deferreds s))")
    case None then show ?thesis .
  next
    case (Some x)
    obtain q ph where "x = (q, ph)" by (cases x)
    with Some assms have "length (deferreds s) < length (deferreds s)"
      unfolding bridge_inv_def by blast
    then show ?thesis by simp
  qed
  from assms have lt: "\<And>q d. serverCache s q = Some d \<Longrightarrow> d < length (deferreds s)"
    and susp: "\<And>d q ph. suspended s d = Some (q, ph) \<Longrightarrow> serverCache s q = Some d \<and> deferreds s ! d = Pending"
    unfolding bridge_inv_def by blast+
  from lt susp have susp_lt: "\<And>d q ph. suspended s d = Some (q, ph) \<Longrightarrow> d < length (deferreds s)"
    by blast
  show ?thesis
    unfolding bridge_inv_def
  proof (intro conjI allI impI)
    fix q d assume "serverCache (snd (getProjectServer p s)) q = Some d"
    with None lt show "d < length (deferreds (snd (getProjectServer p s)))"
      by (auto simp: getProjectServer_def Let_def less_Suc_eq split: if_splits)
  next
    fix d q ph assume a: "suspended (snd (getProjectServer p s)) d = Some (q, ph)"
    show "serverCache (snd (getProjectServer p s)) q = Some d"
      using a None susp by (auto simp: getProjectServer_def Let_def split: if_splits)
    show "deferreds (snd (getProjectServer p s)) ! d = Pending"
      using a None susp susp_lt by (auto simp: getProjectServer_def Let_def nth_append split: if_splits)
  next
    fix q show "count_list (startups (snd (getProjectServer p s))) q =
      (if serverCache (snd (getProjectServer p s)) q = None then 0 else 1)"
      using None assms by (auto simp: getProjectServer_def Let_def bridge_inv_def)
  next
    fix q assume "serverCache (snd (getProjectServer p s)) q = None"
    with None assms show "server_calls_for q (snd (getProjectServer p s)) = []"
      by (auto simp: getProjectServer_def Let_def bridge_inv_def server_calls_for_def split: if_splits)
  next
    fix d q assume "suspended (snd (getProjectServer p s)) d = Some (q, AwaitAll)"
    with None assms show "server_calls_for q (snd (getProjectServer p s)) = []"
      by (auto simp: getProjectServer_def Let_def bridge_inv_def server_calls_for_def split: if_splits)
  next
    fix q from None assms show "length (server_calls_for q (snd (getProjectServer p s))) \<le> 1"
      by (auto simp: getProjectServer_def Let_def bridge_inv_def server_calls_for_def)
  qed
qed

lemma bridge_inv_settle:
  assumes "bridge_inv s"
  shows "bridge_inv (settle d f s)"
  using assms unfolding bridge_inv_def settle_def server_calls_for_def
  by (auto simp: nth_list_update split: if_splits)

lemma bridge_inv_allSettled:
  assumes "bridge_inv s"
  shows "bridge_inv (allSettled d r s)"
proof (cases "suspended s d")
  case None
  with assms show ?thesis by (simp add: allSettled_def)
next
  case (Some x)
  obtain p ph where x: "x = (p, ph)" by (cases x)
  show ?thesis
  proof (cases ph)
    case AwaitStartServer
    with Some x assms show ?thesis by (simp add: allSettled_def)
  next
    case AwaitAll
    note susp = Some [unfolded x AwaitAll]
    show ?thesis
    proof (cases r)
      case (Inl e)
      with susp assms show ?thesis by (simp add: allSettled_def bridge_inv_settle)
    next
      case (Inr y)
      obtain ui a where y: "y = (ui, a)" by (cases y)
      show ?thesis
      proof (cases ui)
        case None
        with susp Inr y assms show ?thesis by (simp add: allSettled_def bridge_inv_settle)
      next
        case (Some uiPort)
        have eq: "allSettled d r s =
          s\<lparr>startServerCalls := startServerCalls s @ [(uiPort, p, a)],
            suspended := (suspended s)(d \<mapsto> (p, AwaitStartServer))\<rparr>"
          using susp Inr y Some by (simp add: allSettled_def)
        from assms susp have cache: "serverCache s p = Some d" and none: "server_calls_for p s = []"
          unfolding bridge_inv_def by blast+
        from assms have susp': "\<And>d q ph. suspended s d = Some (q, ph) \<Longrightarrow> serverCache s q = Some d \<and> deferreds s ! d = Pending"
          unfolding bridge_inv_def by blast
        show ?thesis
          unfolding eq bridge_inv_def
        proof (intro conjI allI impI)
          fix q d' assume "serverCache (s\<lparr>startServerCalls := startServerCalls s @ [(uiPort, p, a)],
            suspended := (suspended s)(d \<mapsto> (p, AwaitStartServer))\<rparr>) q = Some d'"
          with assms show "d' < length (deferreds (s\<lparr>startServerCalls := startServerCalls s @ [(uiPort, p, a)],
            suspended := (suspended s)(d \<mapsto> (p, AwaitStartServer))\<rparr>))"
            by (auto simp: bridge_inv_def)
        next
          fix d' q ph' assume a: "suspended (s\<lparr>startServerCalls := startServerCalls s @ [(uiPort, p, a)],
            suspended := (suspended s)(d \<mapsto> (p, AwaitStartServer))\<rparr>) d' = Some (q, ph')"
          show "serverCache (s\<lparr>startServerCalls := startServerCalls s @ [(uiPort, p, a)],
            suspended := (suspended s)(d \<mapsto> (p, AwaitStartServer))\<rparr>) q = Some d'"
            using a cache susp' by (auto split: if_splits)
          show "deferreds (s\<lparr>startServerCalls := startServerCalls s @ [(uiPort, p, a)],
            suspended := (suspended s)(d \<mapsto> (p, AwaitStartServer))\<rparr>) ! d' = Pending"
            using a susp susp' by (auto split: if_splits)
        next
          fix q show "count_list (startups (s\<lparr>startServerCalls := startServerCalls s @ [(uiPort, p, a)],
            suspended := (suspended s)(d \<mapsto> (p, AwaitStartServer))\<rparr>)) q =
            (if serverCache (s\<lparr>startServerCalls := startServerCalls s @ [(uiPort, p, a)],
            suspended := (suspended s)(d \<mapsto> (p, AwaitStartServer))\<rparr>) q = None then 0 else 1)"
            using assms by (simp add: bridge_inv_def)
        next
          fix q assume "serverCache (s\<lparr>startServerCalls := startServerCalls s @ [(uiPort, p, a)],
            suspended := (suspended s)(d \<mapsto> (p, AwaitStartServer))\<rparr>) q = None"
          with cache assms show "server_calls_for q (s\<lparr>startServerCalls := startServerCalls s @ [(uiPort, p, a)],
            suspended := (suspended s)(d \<mapsto> (p, AwaitStartServer))\<rparr>) = []"
            by (auto simp: bridge_inv_def server_calls_for_def)
        next
          fix d' q assume a: "suspended (s\<lparr>startServerCalls := startServerCalls s @ [(uiPort, p, a)],
            suspended := (suspended s)(d \<mapsto> (p, AwaitStartServer))\<rparr>) d' = Some (q, AwaitAll)"
          then have d': "d' \<noteq> d" and s': "suspended s d' = Some (q, AwaitAll)"
            by (auto split: if_splits)
          from s' susp' have "serverCache s q = Some d'" by blast
          with cache d' have "q \<noteq> p" by auto
          moreover from s' assms have "server_calls_for q s = []"
            unfolding bridge_inv_def by blast
          ultimately show "server_calls_for q (s\<lparr>startServerCalls := startServerCalls s @ [(uiPort, p, a)],
            suspended := (suspended s)(d \<mapsto> (p, AwaitStartServer))\<rparr>) = []"
            by (simp add: server_calls_for_def)
        next
          fix q
          from assms have "length (server_calls_for q s) \<le> 1"
            unfolding bridge_inv_def by blast
          with none show "length (server_calls_for q (s\<lparr>startServerCalls := startServerCalls s @ [(uiPort, p, a)],
            suspended := (suspended s)(d \<mapsto> (p, AwaitStartServer))\<rparr>)) \<le> 1"
            by (cases "q = p") (simp_all add: server_calls_for_def)
        qed
      qed
    qed
  qed
qed

lemma bridge_inv_startServerSettled:
  assumes "bridge_inv s"
  shows "bridge_inv (startServerSettled d r s)"
  using assms
  by (auto simp: startServerSettled_def bridge_inv_settle split: option.splits await_point.splits sum.splits)

lemma bridge_inv_step: "bridge_inv s \<Longrightarrow> bridge_inv (step s ev)"
  by (cases ev) (simp_all add: bridge_inv_call bridge_inv_allSettled bridge_inv_startServerSettled)

lemma bridge_inv_run: "bridge_inv s \<Longrightarrow> bridge_inv (run s evs)"
  unfolding run_def by (induction evs arbitrary: s) (simp_all add: bridge_inv_step)

lemma call_cached: "serverCache s p = Some d \<Longrightarrow> getProjectServer p s = (d, s)"
  by (simp add: getProjectServer_def)

lemma call_caches: "serverCache (snd (getProjectServer p s)) p = Some (fst (getProjectServer p s))"
  by (simp add: getProjectServer_def Let_def split: option.splits)

lemma cache_step: "serverCache s p = Some d \<Longrightarrow> serverCache (step s ev) p = Some d"
  by (cases ev)
    (auto simp: getProjectServer_def Let_def allSettled_def startServerSettled_def settle_def
      split: option.splits await_point.splits sum.splits)

lemma cache_run: "serverCache s p = Some d \<Longrightarrow> serverCache (run s evs) p = Some d"
  unfolding run_def by (induction evs arbitrary: s) (simp_all add: cache_step)

lemma settled_step:
  assumes "d < length (deferreds s)" and "suspended s d = None"
  shows "d < length (deferreds (step s ev)) \<and> suspended (step s ev) d = None \<and>
    deferreds (step s ev) ! d = deferreds s ! d"
  using assms
  by (cases ev)
    (auto simp: getProjectServer_def Let_def allSettled_def startServerSettled_def settle_def
      nth_append split: option.splits await_point.splits sum.splits)

lemma settled_run:
  assumes "d < length (deferreds s)" and "suspended s d = None"
  shows "deferreds (run s evs) ! d = deferreds s ! d"
  using assms unfolding run_def
proof (induction evs arbitrary: s)
  case Nil
  show ?case by simp
next
  case (Cons ev evs)
  from settled_step [OF Cons.prems, of ev] Cons.IH [of "step s ev"]
  show ?case by simp
qed

lemma failure_rejects:
  assumes "bridge_inv s" and "suspended s d = Some (p, ph)" and "startup_failure ph ev = Some (d, e)"
  shows "d < length (deferreds (step s ev)) \<and> suspended (step s ev) d = None \<and>
    deferreds (step s ev) ! d = Rejected e"
proof -
  from assms(1,2) have c: "serverCache s p = Some d" and pend: "deferreds s ! d = Pending"
    unfolding bridge_inv_def by blast+
  from assms(1) c have lt: "d < length (deferreds s)"
    unfolding bridge_inv_def by blast
  have rej: "d < length (deferreds (settle d (reject e) s)) \<and> suspended (settle d (reject e) s) d = None \<and>
    deferreds (settle d (reject e) s) ! d = Rejected e"
    using lt pend by (simp add: settle_def reject_def)
  from assms(3) have "step s ev = settle d (reject e) s"
    using assms(2)
    by (cases "(ph, ev)" rule: startup_failure.cases)
      (auto simp: allSettled_def startServerSettled_def)
  with rej show ?thesis by simp
qed

subsection \<open>getProjectServer: claims C1 and C2\<close>

text \<open>
  Claim C1. Start from the empty cache and let anything happen in any order: calls of
  getProjectServer for any paths and settlements of awaited promises (\<open>evs\<close>). A call for
  a workspace path then has its Deferred in the cache under that path when it reaches
  its first await or returns. After anything further (\<open>later\<close>), another call for the path
  returns the same Deferred and changes nothing, so it creates no Deferred and starts
  nothing. At every moment at most one startup has been initiated for the path, after a
  call exactly one, and startServer has been called for it at most once.
\<close>

theorem getProjectServer_starts_once:
  "serverCache (snd (getProjectServer fsPath (run init_bridge evs))) fsPath =
      Some (fst (getProjectServer fsPath (run init_bridge evs))) \<and>
   getProjectServer fsPath (run (snd (getProjectServer fsPath (run init_bridge evs))) later) =
      (fst (getProjectServer fsPath (run init_bridge evs)),
       run (snd (getProjectServer fsPath (run init_bridge evs))) later) \<and>
   count_list (startups (run init_bridge evs)) fsPath \<le> 1 \<and>
   count_list (startups (run (snd (getProjectServer fsPath (run init_bridge evs))) later)) fsPath = 1 \<and>
   length (server_calls_for fsPath (run init_bridge evs)) \<le> 1"
proof -
  let ?s = "run init_bridge evs :: ('a, 'b, 'c) bridge"
  let ?s1 = "snd (getProjectServer fsPath ?s)"
  let ?d = "fst (getProjectServer fsPath ?s)"
  let ?s2 = "run ?s1 later"
  have inv: "bridge_inv ?s" by (simp add: bridge_inv_run bridge_inv_init)
  then have "bridge_inv ?s1" by (rule bridge_inv_call)
  then have inv2: "bridge_inv ?s2" by (rule bridge_inv_run)
  have c1: "serverCache ?s1 fsPath = Some ?d" by (rule call_caches)
  then have c2: "serverCache ?s2 fsPath = Some ?d" by (rule cache_run)
  then have again: "getProjectServer fsPath ?s2 = (?d, ?s2)" by (rule call_cached)
  from inv have n: "count_list (startups ?s) fsPath \<le> 1"
    unfolding bridge_inv_def by simp
  from inv2 c2 have n2: "count_list (startups ?s2) fsPath = 1"
    unfolding bridge_inv_def by simp
  from inv have m: "length (server_calls_for fsPath ?s) \<le> 1"
    unfolding bridge_inv_def by blast
  from c1 again n n2 m show ?thesis by blast
qed

text \<open>
  Two workspaces: the second call for \<^verbatim>\<open>/ws\<close> comes while its server is starting, the
  third when it runs. One startup and one call of startServer for \<^verbatim>\<open>/ws\<close>, and every
  call is given Deferred 1.
\<close>

theorem getProjectServer_starts_once_witness:
  "fst (getProjectServer ''/ws''
      (run (init_bridge :: (string, string, string) bridge) [Call ''/other'', Call ''/ws''])) = 1 \<and>
   getProjectServer ''/ws''
      (run (snd (getProjectServer ''/ws''
          (run (init_bridge :: (string, string, string) bridge) [Call ''/other'', Call ''/ws''])))
        [AllSettled 1 (Inr (Some 3000, ''analyzer'')), Call ''/ws'',
         StartServerSettled 1 (Inr ''server''), Call ''/ws'']) =
     (1, \<lparr>serverCache = [''/other'' \<mapsto> 0, ''/ws'' \<mapsto> 1],
          deferreds = [Pending, Fulfilled ''server''],
          suspended = [0 \<mapsto> (''/other'', AwaitAll)],
          startups = [''/other'', ''/ws''],
          startServerCalls = [(3000, ''/ws'', ''analyzer'')]\<rparr>)"
proof -
  let ?evs = "[Call ''/other'', Call ''/ws''] :: (string, string, string) event list"
  let ?later = "[AllSettled 1 (Inr (Some 3000, ''analyzer'')), Call ''/ws'',
         StartServerSettled 1 (Inr ''server''), Call ''/ws''] :: (string, string, string) event list"
  have d: "fst (getProjectServer ''/ws'' (run (init_bridge :: (string, string, string) bridge) ?evs)) = 1"
    by (simp add: run_def init_bridge_def getProjectServer_def Let_def)
  have s: "run (snd (getProjectServer ''/ws'' (run (init_bridge :: (string, string, string) bridge) ?evs))) ?later =
      \<lparr>serverCache = [''/other'' \<mapsto> 0, ''/ws'' \<mapsto> 1],
          deferreds = [Pending, Fulfilled ''server''],
          suspended = [0 \<mapsto> (''/other'', AwaitAll)],
          startups = [''/other'', ''/ws''],
          startServerCalls = [(3000, ''/ws'', ''analyzer'')]\<rparr>"
    by (simp add: run_def init_bridge_def getProjectServer_def allSettled_def startServerSettled_def
        settle_def resolve_def Let_def fun_upd_twist)
  from getProjectServer_starts_once [of "''/ws''" ?evs ?later] d s
  show ?thesis by simp
qed

text \<open>
  Claim C2. Let the activation that created Deferred \<open>d\<close> for a workspace path be
  suspended, and let its startup fail with error \<open>e\<close>: the awaited
  \<^verbatim>\<open>Promise.all\<close> of the UI server and the analyzer rejects, the UI server has no address
  to read the port from, or startServer rejects. Then \<open>d\<close> is the Deferred cached for the
  path, the one every earlier caller was given; and whatever happens afterwards, \<open>d\<close> is
  rejected with \<open>e\<close>, and a call for the path returns \<open>d\<close> and changes nothing: the entry
  is never removed and no second startup is made.
\<close>

theorem startup_failure_is_kept:
  assumes "suspended (run init_bridge evs) d = Some (fsPath, ph)"
    and "startup_failure ph ev = Some (d, e)"
  shows "serverCache (run init_bridge evs) fsPath = Some d \<and>
    deferreds (run (step (run init_bridge evs) ev) later) ! d = Rejected e \<and>
    getProjectServer fsPath (run (step (run init_bridge evs) ev) later) =
      (d, run (step (run init_bridge evs) ev) later) \<and>
    count_list (startups (run (step (run init_bridge evs) ev) later)) fsPath = 1"
proof -
  let ?s = "run init_bridge evs :: ('a, 'b, 'c) bridge"
  let ?s2 = "run (step ?s ev) later"
  have inv: "bridge_inv ?s" by (simp add: bridge_inv_run bridge_inv_init)
  then have inv2: "bridge_inv ?s2" by (simp add: bridge_inv_run bridge_inv_step)
  from inv assms(1) have c: "serverCache ?s fsPath = Some d"
    unfolding bridge_inv_def by blast
  then have c2: "serverCache ?s2 fsPath = Some d"
    by (simp add: cache_run cache_step)
  then have again: "getProjectServer fsPath ?s2 = (d, ?s2)" by (rule call_cached)
  from failure_rejects [OF inv assms]
  have "deferreds ?s2 ! d = Rejected e"
    by (simp add: settled_run)
  moreover from inv2 c2 have "count_list (startups ?s2) fsPath = 1"
    unfolding bridge_inv_def by simp
  ultimately show ?thesis using c again by blast
qed

text \<open>
  Two failing runs: the UI server cannot be resolved, and startServer rejects after the
  first await went well.
\<close>

theorem startup_failure_is_kept_witness:
  "suspended (run (init_bridge :: (string, string, string) bridge) [Call ''/ws'']) 0 = Some (''/ws'', AwaitAll) \<and>
   startup_failure AwaitAll (AllSettled 0 (Inl (Thrown ''EADDRINUSE'')) :: (string, string, string) event) =
     Some (0, Thrown ''EADDRINUSE'') \<and>
   deferreds (run (step (run (init_bridge :: (string, string, string) bridge) [Call ''/ws''])
       (AllSettled 0 (Inl (Thrown ''EADDRINUSE''))))
     [Call ''/ws'', Call ''/other'', StartServerSettled 0 (Inr ''server''), Call ''/ws'']) ! 0 =
     Rejected (Thrown ''EADDRINUSE'') \<and>
   fst (getProjectServer ''/ws''
     (run (step (run (init_bridge :: (string, string, string) bridge) [Call ''/ws''])
       (AllSettled 0 (Inl (Thrown ''EADDRINUSE''))))
     [Call ''/ws'', Call ''/other'', StartServerSettled 0 (Inr ''server''), Call ''/ws''])) = 0 \<and>
   suspended (run (init_bridge :: (string, string, string) bridge)
       [Call ''/ws'', AllSettled 0 (Inr (Some 3000, ''analyzer''))]) 0 =
     Some (''/ws'', AwaitStartServer) \<and>
   startup_failure AwaitStartServer
       (StartServerSettled 0 (Inl (Thrown ''no config'')) :: (string, string, string) event) =
     Some (0, Thrown ''no config'') \<and>
   deferreds (run (step (run (init_bridge :: (string, string, string) bridge)
       [Call ''/ws'', AllSettled 0 (Inr (Some 3000, ''analyzer''))])
       (StartServerSettled 0 (Inl (Thrown ''no config'')))) [Call ''/ws'']) ! 0 =
     Rejected (Thrown ''no config'')"
proof -
  have h1: "suspended (run (init_bridge :: (string, string, string) bridge) [Call ''/ws'']) 0 =
      Some (''/ws'', AwaitAll)"
    by (simp add: run_def init_bridge_def getProjectServer_def Let_def)
  have h2: "startup_failure AwaitAll (AllSettled 0 (Inl (Thrown ''EADDRINUSE'')) :: (string, string, string) event) =
      Some (0, Thrown ''EADDRINUSE'')"
    by simp
  have h3: "suspended (run (init_bridge :: (string, string, string) bridge)
       [Call ''/ws'', AllSettled 0 (Inr (Some 3000, ''analyzer''))]) 0 =
     Some (''/ws'', AwaitStartServer)"
    by (simp add: run_def init_bridge_def getProjectServer_def allSettled_def Let_def)
  have h4: "startup_failure AwaitStartServer
       (StartServerSettled 0 (Inl (Thrown ''no config'')) :: (string, string, string) event) =
     Some (0, Thrown ''no config'')"
    by simp
  note a = startup_failure_is_kept [OF h1 h2,
      where later = "[Call ''/ws'', Call ''/other'', StartServerSettled 0 (Inr ''server''), Call ''/ws'']"]
  note b = startup_failure_is_kept [OF h3 h4, where later = "[Call ''/ws'']"]
  from h1 h2 h3 h4 a b show ?thesis by simp
qed

subsection \<open>Facts about the React wrapper\<close>

lemma tracked_after:
  "tracked (addOrUpdateEventListener node event l s) n e =
    (if n = node \<and> e = event then
       (if l \<noteq> Undefined then
          (case tracked s node event of None \<Rightarrow> Some (length (handlerObjects s)) | Some h \<Rightarrow> Some h)
        else None)
     else tracked s n e)"
  by (auto simp: addOrUpdateEventListener_def tracked_def Let_def addEventListener_def
      removeEventListener_def split: option.splits)

lemma eventListeners_after:
  "eventListeners (addOrUpdateEventListener node event l s) =
    (if l \<noteq> Undefined then
       (case tracked s node event of
         None \<Rightarrow>
           (if (node, event, length (handlerObjects s)) \<in> set (eventListeners s) then eventListeners s
            else eventListeners s @ [(node, event, length (handlerObjects s))])
       | Some h \<Rightarrow> eventListeners s)
     else
       (case tracked s node event of
         None \<Rightarrow> eventListeners s
       | Some h \<Rightarrow> removeAll (node, event, h) (eventListeners s)))"
  by (auto simp: addOrUpdateEventListener_def tracked_def Let_def addEventListener_def
      removeEventListener_def split: option.splits)

lemma handlerObjects_after:
  "handlerObjects (addOrUpdateEventListener node event l s) =
    (if l \<noteq> Undefined then
       (case tracked s node event of
         None \<Rightarrow> handlerObjects s @ [l]
       | Some h \<Rightarrow> (handlerObjects s)[h := l])
     else handlerObjects s)"
  by (auto simp: addOrUpdateEventListener_def tracked_def Let_def addEventListener_def
      removeEventListener_def split: option.splits)

lemma domCalls_after:
  "domCalls (addOrUpdateEventListener node event l s) =
    (if l \<noteq> Undefined then
       (case tracked s node event of
         None \<Rightarrow> domCalls s @ [AddEventListener node event (length (handlerObjects s))]
       | Some h \<Rightarrow> domCalls s)
     else
       (case tracked s node event of
         None \<Rightarrow> domCalls s
       | Some h \<Rightarrow> domCalls s @ [RemoveEventListener node event h]))"
  by (auto simp: addOrUpdateEventListener_def tracked_def Let_def addEventListener_def
      removeEventListener_def split: option.splits)

lemma listener_is_tracked:
  assumes "dom_inv s" and "(n, e, h) \<in> set (eventListeners s)"
  shows "tracked s n e = Some h"
proof -
  from assms(2) have "(n, e, h) \<in> set (listeners_of s n e)"
    by (simp add: listeners_of_def)
  moreover from assms(1) have "listeners_of s n e =
      (case tracked s n e of None \<Rightarrow> [] | Some h \<Rightarrow> [(n, e, h)])"
    unfolding dom_inv_def by blast
  ultimately show ?thesis by (cases "tracked s n e") simp_all
qed

lemma fresh_handler:
  assumes "dom_inv s"
  shows "(n, e, length (handlerObjects s)) \<notin> set (eventListeners s)"
proof
  assume "(n, e, length (handlerObjects s)) \<in> set (eventListeners s)"
  with assms have "tracked s n e = Some (length (handlerObjects s))"
    by (rule listener_is_tracked)
  with assms have "length (handlerObjects s) < length (handlerObjects s)"
    unfolding dom_inv_def by blast
  then show False by simp
qed

lemma filter_removeAll_swap: "filter P (removeAll x xs) = removeAll x (filter P xs)"
  by (induction xs) auto

lemma listeners_of_after:
  assumes "dom_inv s"
  shows "listeners_of (addOrUpdateEventListener node event l s) n e =
    (case tracked (addOrUpdateEventListener node event l s) n e of
      None \<Rightarrow> [] | Some h \<Rightarrow> [(n, e, h)])"
proof -
  from assms have old: "\<And>n e. listeners_of s n e =
      (case tracked s n e of None \<Rightarrow> [] | Some h \<Rightarrow> [(n, e, h)])"
    unfolding dom_inv_def by blast
  have lo: "listeners_of (addOrUpdateEventListener node event l s) n e =
      filter (\<lambda>l. fst l = n \<and> fst (snd l) = e) (eventListeners (addOrUpdateEventListener node event l s))"
    by (simp add: listeners_of_def)
  have lo': "\<And>n e. filter (\<lambda>l. fst l = n \<and> fst (snd l) = e) (eventListeners s) = listeners_of s n e"
    by (simp add: listeners_of_def)
  show ?thesis
    unfolding lo eventListeners_after tracked_after
    using fresh_handler [OF assms, of node event] old [of n e] old [of node event]
    by (auto simp: lo' filter_removeAll_swap split: option.splits)
qed

lemma dom_inv_step:
  assumes "dom_inv s"
  shows "dom_inv (addOrUpdateEventListener node event l s)"
  unfolding dom_inv_def
proof (intro conjI allI impI)
  fix n e
  show "listeners_of (addOrUpdateEventListener node event l s) n e =
    (case tracked (addOrUpdateEventListener node event l s) n e of
      None \<Rightarrow> [] | Some h \<Rightarrow> [(n, e, h)])"
    using assms by (rule listeners_of_after)
next
  fix n e h
  assume "tracked (addOrUpdateEventListener node event l s) n e = Some h"
  moreover from assms have "\<And>n e h. tracked s n e = Some h \<Longrightarrow> h < length (handlerObjects s)"
    unfolding dom_inv_def by blast
  ultimately show "h < length (handlerObjects (addOrUpdateEventListener node event l s))"
    by (auto simp: tracked_after handlerObjects_after less_Suc_eq split: if_splits option.splits)
qed

lemma dom_inv_init: "dom_inv init_dom"
  by (simp add: dom_inv_def init_dom_def listeners_of_def tracked_def)

lemma dom_inv_listen_all: "dom_inv s \<Longrightarrow> dom_inv (listen_all s calls)"
  unfolding listen_all_def by (induction calls arbitrary: s) (simp_all add: dom_inv_step)

lemma demo_listen:
  "listen_all init_dom [(''el'', ''activate'', Val ''f'')] =
    \<lparr>listenedEvents = [''el'' \<mapsto> [''activate'' \<mapsto> 0]], handlerObjects = [Val ''f''],
     eventListeners = [(''el'', ''activate'', 0)], domCalls = [AddEventListener ''el'' ''activate'' 0]\<rparr>"
  by (simp add: listen_all_def addOrUpdateEventListener_def init_dom_def addEventListener_def Let_def)

lemma dom_inv_setProperty:
  assumes "dom_inv s"
  shows "dom_inv (setProperty node name v old events s)"
proof (cases "event_of events name")
  case None
  with assms show ?thesis
    by (simp add: setProperty_def dom_inv_def listeners_of_def tracked_def)
next
  case (Some event)
  with assms show ?thesis
    by (simp add: setProperty_def dom_inv_step)
qed

lemma dom_inv_set_all: "dom_inv s \<Longrightarrow> dom_inv (set_all s calls)"
  unfolding set_all_def
  by (induction calls arbitrary: s) (auto simp: dom_inv_setProperty)

lemma rebound:
  assumes "dom_inv s"
  shows "(v \<noteq> Undefined \<longrightarrow>
      (\<exists>h. listeners_of (addOrUpdateEventListener node event v s) node event = [(node, event, h)] \<and>
        handlerObjects (addOrUpdateEventListener node event v s) ! h = v)) \<and>
    (v = Undefined \<longrightarrow> listeners_of (addOrUpdateEventListener node event v s) node event = [])"
proof -
  let ?s' = "addOrUpdateEventListener node event v s"
  have lo: "listeners_of ?s' node event =
      (case tracked ?s' node event of None \<Rightarrow> [] | Some h \<Rightarrow> [(node, event, h)])"
    using assms by (rule listeners_of_after)
  from assms have lt: "\<And>h. tracked s node event = Some h \<Longrightarrow> h < length (handlerObjects s)"
    unfolding dom_inv_def by blast
  show ?thesis
  proof (cases "tracked s node event")
    case None
    then show ?thesis
      unfolding lo by (simp add: tracked_after handlerObjects_after)
  next
    case (Some h)
    with lt [OF Some] show ?thesis
      unfolding lo by (simp add: tracked_after handlerObjects_after)
  qed
qed

lemma demo_set:
  "set_all init_dom [(''el'', ''onActivate'', Val ''f'', Undefined, Some [''onActivate'' \<mapsto> ''activate''])] =
    \<lparr>listenedEvents = [''el'' \<mapsto> [''activate'' \<mapsto> 0]], handlerObjects = [Val ''f''],
     eventListeners = [(''el'', ''activate'', 0)], domCalls = [AddEventListener ''el'' ''activate'' 0]\<rparr>"
  by (simp add: set_all_def setProperty_def event_of_def strict_neq_def addOrUpdateEventListener_def
      init_dom_def addEventListener_def Let_def)

lemma render_fold:
  "foldl (render_entry c) (ep, pr) entries =
    (ep ++ map_of (rev (element_entries c entries)), pr ++ map_of (rev (react_entries c entries)))"
proof (induction entries arbitrary: ep pr)
  case Nil
  show ?case by (simp add: element_entries_def react_entries_def)
next
  case (Cons kv entries)
  obtain k v where kv: "kv = (k, v)" by (cases kv)
  consider (fwd) "k = ''__forwardedRef''"
    | (element) "k \<noteq> ''__forwardedRef''" "is_element_prop c k"
    | (react) "k \<noteq> ''__forwardedRef''" "\<not> is_element_prop c k"
    by blast
  then show ?case
  proof cases
    case fwd
    then have "render_entry c (ep, pr) kv = (ep, pr)"
      and "element_entries c (kv # entries) = element_entries c entries"
      and "react_entries c (kv # entries) = react_entries c entries"
      by (simp_all add: render_entry_def element_entries_def react_entries_def kv)
    then show ?thesis by (simp add: Cons.IH)
  next
    case element
    then have "render_entry c (ep, pr) kv = (ep(k \<mapsto> v), pr)"
      and "element_entries c (kv # entries) = (k, v) # element_entries c entries"
      and "react_entries c (kv # entries) = react_entries c entries"
      by (simp_all add: render_entry_def element_entries_def react_entries_def kv)
    then show ?thesis
      by (simp add: Cons.IH) (auto simp: fun_eq_iff map_add_def split: option.splits)
  next
    case react
    then have "render_entry c (ep, pr) kv = (ep, pr(react_name k \<mapsto> v))"
      and "element_entries c (kv # entries) = element_entries c entries"
      and "react_entries c (kv # entries) = (react_name k, v) # react_entries c entries"
      by (simp_all add: render_entry_def element_entries_def react_entries_def kv)
    then show ?thesis
      by (simp add: Cons.IH) (auto simp: fun_eq_iff map_add_def split: option.splits)
  qed
qed

lemma render_props_eq:
  "render_props c ref entries =
    (map_of (rev (element_entries c entries)), [''ref'' \<mapsto> ref] ++ map_of (rev (react_entries c entries)))"
  by (simp add: render_props_def render_fold)

lemma map_of_rev_distinct:
  "distinct (map fst xs) \<Longrightarrow> map_of (rev xs) = map_of xs"
  by (simp add: distinct_map map_of_inject_set distinct_rev)

subsection \<open>The React wrapper: claims C8 to C10\<close>

text \<open>
  Claim C8. After any sequence of calls of addOrUpdateEventListener (\<open>calls\<close>, starting
  with nothing listened to) and one more call, every node and event has at most one
  registered listener. The last call, with a defined listener and no handler tracked,
  creates one handler object holding the listener, tracks it and registers it with one
  \<^verbatim>\<open>addEventListener\<close>; with a defined listener and a handler tracked, it stores the
  listener in that handler object and leaves the registered listeners and the calls made
  on the DOM as they are; with an undefined listener and a handler tracked, it deletes the
  map entry and removes the handler from the node with one \<^verbatim>\<open>removeEventListener\<close>.
\<close>

theorem addOrUpdateEventListener_one_listener:
  assumes "s = listen_all init_dom calls"
    and "s' = addOrUpdateEventListener node event listener s"
  shows "(\<forall>n e. length (listeners_of s' n e) \<le> 1) \<and>
    (listener \<noteq> Undefined \<and> tracked s node event = None \<longrightarrow>
      tracked s' node event = Some (length (handlerObjects s)) \<and>
      handlerObjects s' = handlerObjects s @ [listener] \<and>
      eventListeners s' = eventListeners s @ [(node, event, length (handlerObjects s))] \<and>
      domCalls s' = domCalls s @ [AddEventListener node event (length (handlerObjects s))]) \<and>
    (\<forall>h. listener \<noteq> Undefined \<and> tracked s node event = Some h \<longrightarrow>
      tracked s' node event = Some h \<and>
      handlerObjects s' = (handlerObjects s)[h := listener] \<and>
      handlerObjects s' ! h = listener \<and>
      eventListeners s' = eventListeners s \<and>
      domCalls s' = domCalls s) \<and>
    (\<forall>h. listener = Undefined \<and> tracked s node event = Some h \<longrightarrow>
      tracked s' node event = None \<and>
      eventListeners s' = removeAll (node, event, h) (eventListeners s) \<and>
      listeners_of s' node event = [] \<and>
      handlerObjects s' = handlerObjects s \<and>
      domCalls s' = domCalls s @ [RemoveEventListener node event h])"
proof -
  have inv: "dom_inv s"
    unfolding assms(1) by (simp add: dom_inv_listen_all dom_inv_init)
  then have inv': "dom_inv s'"
    unfolding assms(2) by (rule dom_inv_step)
  have one: "\<forall>n e. length (listeners_of s' n e) \<le> 1"
  proof (intro allI)
    fix n e
    from inv' have "listeners_of s' n e = (case tracked s' n e of None \<Rightarrow> [] | Some h \<Rightarrow> [(n, e, h)])"
      unfolding dom_inv_def by blast
    then show "length (listeners_of s' n e) \<le> 1"
      by (cases "tracked s' n e") simp_all
  qed
  have new: "listener \<noteq> Undefined \<and> tracked s node event = None \<longrightarrow>
      tracked s' node event = Some (length (handlerObjects s)) \<and>
      handlerObjects s' = handlerObjects s @ [listener] \<and>
      eventListeners s' = eventListeners s @ [(node, event, length (handlerObjects s))] \<and>
      domCalls s' = domCalls s @ [AddEventListener node event (length (handlerObjects s))]"
    unfolding assms(2)
    using fresh_handler [OF inv, of node event]
    by (simp add: tracked_after handlerObjects_after eventListeners_after domCalls_after)
  have upd: "\<forall>h. listener \<noteq> Undefined \<and> tracked s node event = Some h \<longrightarrow>
      tracked s' node event = Some h \<and>
      handlerObjects s' = (handlerObjects s)[h := listener] \<and>
      handlerObjects s' ! h = listener \<and>
      eventListeners s' = eventListeners s \<and>
      domCalls s' = domCalls s"
  proof (intro allI impI)
    fix h assume a: "listener \<noteq> Undefined \<and> tracked s node event = Some h"
    with inv have "h < length (handlerObjects s)"
      unfolding dom_inv_def by blast
    with a show "tracked s' node event = Some h \<and>
      handlerObjects s' = (handlerObjects s)[h := listener] \<and>
      handlerObjects s' ! h = listener \<and>
      eventListeners s' = eventListeners s \<and>
      domCalls s' = domCalls s"
      unfolding assms(2)
      by (simp add: tracked_after handlerObjects_after eventListeners_after domCalls_after)
  qed
  have rem: "\<forall>h. listener = Undefined \<and> tracked s node event = Some h \<longrightarrow>
      tracked s' node event = None \<and>
      eventListeners s' = removeAll (node, event, h) (eventListeners s) \<and>
      listeners_of s' node event = [] \<and>
      handlerObjects s' = handlerObjects s \<and>
      domCalls s' = domCalls s @ [RemoveEventListener node event h]"
  proof (intro allI impI)
    fix h assume a: "listener = Undefined \<and> tracked s node event = Some h"
    then have t: "tracked s' node event = None"
      unfolding assms(2) by (simp add: tracked_after)
    from inv' have "listeners_of s' node event =
        (case tracked s' node event of None \<Rightarrow> [] | Some h \<Rightarrow> [(node, event, h)])"
      unfolding dom_inv_def by blast
    with t have "listeners_of s' node event = []" by simp
    with a t show "tracked s' node event = None \<and>
      eventListeners s' = removeAll (node, event, h) (eventListeners s) \<and>
      listeners_of s' node event = [] \<and>
      handlerObjects s' = handlerObjects s \<and>
      domCalls s' = domCalls s @ [RemoveEventListener node event h]"
      unfolding assms(2)
      by (simp add: handlerObjects_after eventListeners_after domCalls_after)
  qed
  from one new upd rem show ?thesis by blast
qed

text \<open>
  The three cases on one element: a first listener, a second one for the same event, and
  \<^verbatim>\<open>undefined\<close>.
\<close>

theorem addOrUpdateEventListener_one_listener_witness:
  "tracked (listen_all init_dom [] :: (string, string) dom_state) ''el'' ''activate'' = None \<and>
   eventListeners (addOrUpdateEventListener ''el'' ''activate'' (Val ''f'')
     (listen_all init_dom [] :: (string, string) dom_state)) =
     [(''el'', ''activate'', 0)] \<and>
   tracked (listen_all init_dom [(''el'', ''activate'', Val ''f'')]) ''el'' ''activate'' = Some 0 \<and>
   handlerObjects (addOrUpdateEventListener ''el'' ''activate'' (Val ''g'')
     (listen_all init_dom [(''el'', ''activate'', Val ''f'')])) = [Val ''g''] \<and>
   domCalls (addOrUpdateEventListener ''el'' ''activate'' (Val ''g'')
     (listen_all init_dom [(''el'', ''activate'', Val ''f'')])) = [AddEventListener ''el'' ''activate'' 0] \<and>
   eventListeners (addOrUpdateEventListener ''el'' ''activate'' Undefined
     (listen_all init_dom [(''el'', ''activate'', Val ''f'')])) = [] \<and>
   domCalls (addOrUpdateEventListener ''el'' ''activate'' Undefined
     (listen_all init_dom [(''el'', ''activate'', Val ''f'')])) =
     [AddEventListener ''el'' ''activate'' 0, RemoveEventListener ''el'' ''activate'' 0 :: (string, string) dom_call]"
proof -
  have t0: "tracked (listen_all init_dom [] :: (string, string) dom_state) ''el'' ''activate'' = None"
    by (simp add: listen_all_def init_dom_def tracked_def)
  have t1: "tracked (listen_all init_dom [(''el'', ''activate'', Val ''f'')]) ''el'' ''activate'' = Some 0"
    by (simp add: demo_listen tracked_def)
  note new = addOrUpdateEventListener_one_listener [OF refl refl,
      where listener = "Val ''f'' :: string jsval" and calls = "[]" and node = "''el''"
        and event = "''activate''"]
  note upd = addOrUpdateEventListener_one_listener [OF refl refl,
      where listener = "Val ''g''" and calls = "[(''el'', ''activate'', Val ''f'')]"
        and node = "''el''" and event = "''activate''"]
  note rem = addOrUpdateEventListener_one_listener [OF refl refl,
      where listener = "Undefined" and calls = "[(''el'', ''activate'', Val ''f'' :: string jsval)]"
        and node = "''el''" and event = "''activate''"]
  from t0 new have a: "eventListeners (addOrUpdateEventListener ''el'' ''activate'' (Val ''f'')
      (listen_all init_dom [] :: (string, string) dom_state)) = [(''el'', ''activate'', 0)]"
    by (simp add: listen_all_def init_dom_def)
  from t1 upd have b: "handlerObjects (addOrUpdateEventListener ''el'' ''activate'' (Val ''g'')
     (listen_all init_dom [(''el'', ''activate'', Val ''f'')])) = [Val ''g''] \<and>
   domCalls (addOrUpdateEventListener ''el'' ''activate'' (Val ''g'')
     (listen_all init_dom [(''el'', ''activate'', Val ''f'')])) = [AddEventListener ''el'' ''activate'' 0]"
    by (simp add: demo_listen)
  from t1 rem have c: "eventListeners (addOrUpdateEventListener ''el'' ''activate'' Undefined
     (listen_all init_dom [(''el'', ''activate'', Val ''f'' :: string jsval)])) = [] \<and>
   domCalls (addOrUpdateEventListener ''el'' ''activate'' Undefined
     (listen_all init_dom [(''el'', ''activate'', Val ''f'' :: string jsval)])) =
     [AddEventListener ''el'' ''activate'' 0, RemoveEventListener ''el'' ''activate'' 0]"
    by (simp add: demo_listen)
  from t0 t1 a b c show ?thesis by simp
qed

text \<open>
  Claim C9. In any state that calls of setProperty lead to: for a name that is a
  configured event prop, setProperty does nothing when the value is the old value under
  \<^verbatim>\<open>!==\<close>; otherwise it rebinds with addOrUpdateEventListener, after which the one
  listener registered for the configured event holds the new value, or none is
  registered when the value is undefined. For any other name it assigns the value to the
  element's property and does nothing else, whatever the old value is.
\<close>

theorem setProperty_asymmetric:
  assumes "s = set_all init_dom calls"
  shows "(event_of events name = Some event \<and> \<not> strict_neq v old \<longrightarrow>
      setProperty node name v old events s = s) \<and>
   (event_of events name = Some event \<and> strict_neq v old \<longrightarrow>
      setProperty node name v old events s = addOrUpdateEventListener node event v s \<and>
      (v \<noteq> Undefined \<longrightarrow>
        (\<exists>h. listeners_of (setProperty node name v old events s) node event = [(node, event, h)] \<and>
          handlerObjects (setProperty node name v old events s) ! h = v)) \<and>
      (v = Undefined \<longrightarrow> listeners_of (setProperty node name v old events s) node event = [])) \<and>
   (event_of events name = None \<longrightarrow>
      setProperty node name v old events s = s\<lparr>domCalls := domCalls s @ [SetProperty node name v]\<rparr>)"
proof -
  have inv: "dom_inv s"
    unfolding assms by (simp add: dom_inv_set_all dom_inv_init)
  show ?thesis
  proof (cases "event_of events name")
    case None
    then show ?thesis by (simp add: setProperty_def)
  next
    case (Some ev)
    show ?thesis
    proof (cases "strict_neq v old")
      case False
      with Some show ?thesis by (simp add: setProperty_def)
    next
      case True
      with Some have eq: "setProperty node name v old events s = addOrUpdateEventListener node ev v s"
        by (simp add: setProperty_def)
      from rebound [OF inv, of v node ev] Some True show ?thesis
        unfolding eq by auto
    qed
  qed
qed

text \<open>
  An event prop given the same listener again, then another listener, and a plain
  property given the value it already has.
\<close>

theorem setProperty_asymmetric_witness:
  "event_of (Some [''onActivate'' \<mapsto> ''activate'']) ''onActivate'' = Some ''activate'' \<and>
   \<not> strict_neq (Val ''f'') (Val ''f'') \<and> strict_neq (Val ''g'') (Val ''f'') \<and>
   event_of (Some [''onActivate'' \<mapsto> ''activate'']) ''label'' = None \<and>
   setProperty ''el'' ''onActivate'' (Val ''f'') (Val ''f'') (Some [''onActivate'' \<mapsto> ''activate''])
     (set_all init_dom
       [(''el'', ''onActivate'', Val ''f'', Undefined, Some [''onActivate'' \<mapsto> ''activate''])]) =
     set_all init_dom
       [(''el'', ''onActivate'', Val ''f'', Undefined, Some [''onActivate'' \<mapsto> ''activate''])] \<and>
   handlerObjects (setProperty ''el'' ''onActivate'' (Val ''g'') (Val ''f'')
     (Some [''onActivate'' \<mapsto> ''activate''])
     (set_all init_dom
       [(''el'', ''onActivate'', Val ''f'', Undefined, Some [''onActivate'' \<mapsto> ''activate''])])) =
     [Val ''g''] \<and>
   domCalls (setProperty ''el'' ''label'' (Val ''x'') (Val ''x'')
     (Some [''onActivate'' \<mapsto> ''activate''])
     (set_all init_dom
       [(''el'', ''onActivate'', Val ''f'', Undefined, Some [''onActivate'' \<mapsto> ''activate''])])) =
     [AddEventListener ''el'' ''activate'' 0, SetProperty ''el'' ''label'' (Val ''x'')]"
proof -
  let ?ev = "Some [''onActivate'' \<mapsto> ''activate'']"
  let ?calls = "[(''el'', ''onActivate'', Val ''f'' :: string jsval, Undefined :: string jsval, ?ev)]"
  have e: "event_of ?ev ''onActivate'' = Some ''activate''"
    by (simp add: event_of_def)
  have n: "event_of ?ev ''label'' = None"
    by (simp add: event_of_def)
  have same: "\<not> strict_neq (Val ''f'' :: string jsval) (Val ''f'')"
    by (simp add: strict_neq_def)
  have diff: "strict_neq (Val ''g'' :: string jsval) (Val ''f'')"
    by (simp add: strict_neq_def)
  note keep = setProperty_asymmetric [OF refl, where calls = ?calls and events = ?ev
      and name = "''onActivate''" and event = "''activate''" and v = "Val ''f''" and old = "Val ''f''"
      and node = "''el''"]
  note rebind = setProperty_asymmetric [OF refl, where calls = ?calls and events = ?ev
      and name = "''onActivate''" and event = "''activate''" and v = "Val ''g''" and old = "Val ''f''"
      and node = "''el''"]
  note assign = setProperty_asymmetric [OF refl, where calls = ?calls and events = ?ev
      and name = "''label''" and v = "Val ''x''" and old = "Val ''x''" and node = "''el''"]
  from e same keep have a: "setProperty ''el'' ''onActivate'' (Val ''f'') (Val ''f'') ?ev
      (set_all init_dom ?calls) = set_all init_dom ?calls"
    by blast
  from e diff rebind have "setProperty ''el'' ''onActivate'' (Val ''g'') (Val ''f'') ?ev
      (set_all init_dom ?calls) =
     addOrUpdateEventListener ''el'' ''activate'' (Val ''g'') (set_all init_dom ?calls)"
    by blast
  then have b: "handlerObjects (setProperty ''el'' ''onActivate'' (Val ''g'') (Val ''f'') ?ev
      (set_all init_dom ?calls)) = [Val ''g'']"
    by (simp add: demo_set addOrUpdateEventListener_def Let_def)
  from n assign have c: "domCalls (setProperty ''el'' ''label'' (Val ''x'') (Val ''x'') ?ev
      (set_all init_dom ?calls)) =
     [AddEventListener ''el'' ''activate'' 0, SetProperty ''el'' ''label'' (Val ''x'')]"
    by (simp add: demo_set)
  from e n same diff a b c show ?thesis by blast
qed

text \<open>
  Claim C10 says that every prop that is not routed to the element, \<^verbatim>\<open>__forwardedRef\<close>
  apart, is passed to createElement, \<^verbatim>\<open>className\<close> as \<^verbatim>\<open>class\<close>. Given both \<^verbatim>\<open>class\<close> and
  \<^verbatim>\<open>className\<close>, neither an element property, the loop assigns both to \<^verbatim>\<open>props.class\<close>,
  and createElement receives the later one only.
\<close>

theorem render_class_collision_counterexample:
  "(''class'', ''a'') \<in> set [(''class'', ''a''), (''className'', ''b'')] \<and>
   ''class'' \<noteq> ''__forwardedRef'' \<and>
   \<not> is_element_prop demo_component ''class'' \<and>
   snd (render_props demo_component ''r'' [(''class'', ''a''), (''className'', ''b'')])
     (react_name ''class'') = Some ''b''"
  by (simp add: render_props_def render_entry_def is_element_prop_def demo_component_def
      react_name_def reservedReactProperties_def)

text \<open>
  Claim C10, amended. The loop stores in \<^verbatim>\<open>_elementProps\<close> the props other than
  \<^verbatim>\<open>__forwardedRef\<close> that are configured event props, or names of the element prototype
  that are neither reserved nor names of \<^verbatim>\<open>HTMLElement.prototype\<close>: a prop is there, with
  its value, exactly when it is one of these. Every other prop but \<^verbatim>\<open>__forwardedRef\<close> is
  assigned, in the order of the props, to the props for createElement under its own name,
  \<^verbatim>\<open>className\<close> under \<^verbatim>\<open>class\<close>, on top of \<^verbatim>\<open>ref\<close>: createElement receives such a prop
  under its name unless a later such prop is assigned to the same name (\<^verbatim>\<open>class\<close> and
  \<^verbatim>\<open>className\<close> both given), in which case it receives the later one.
  \<^verbatim>\<open>__forwardedRef\<close> goes to neither.
\<close>

theorem render_routes_props:
  "fst (render_props c ref entries) = map_of (rev (element_entries c entries)) \<and>
   snd (render_props c ref entries) = [''ref'' \<mapsto> ref] ++ map_of (rev (react_entries c entries)) \<and>
   (distinct (map fst entries) \<longrightarrow>
     (\<forall>k v. fst (render_props c ref entries) k = Some v \<longleftrightarrow>
       (k, v) \<in> set entries \<and> k \<noteq> ''__forwardedRef'' \<and> is_element_prop c k)) \<and>
   (\<forall>before k v after.
     entries = before @ (k, v) # after \<and> k \<noteq> ''__forwardedRef'' \<and> \<not> is_element_prop c k \<and>
     react_name k \<notin> fst ` set (react_entries c after) \<longrightarrow>
       snd (render_props c ref entries) (react_name k) = Some v) \<and>
   fst (render_props c ref entries) ''__forwardedRef'' = None \<and>
   snd (render_props c ref entries) ''__forwardedRef'' = None"
proof (intro conjI allI impI)
  show "fst (render_props c ref entries) = map_of (rev (element_entries c entries))"
    by (simp add: render_props_eq)
  show "snd (render_props c ref entries) = [''ref'' \<mapsto> ref] ++ map_of (rev (react_entries c entries))"
    by (simp add: render_props_eq)
next
  fix k v
  assume d: "distinct (map fst entries)"
  then have "distinct (map fst (element_entries c entries))"
    unfolding element_entries_def by (rule distinct_map_filter)
  then have "map_of (rev (element_entries c entries)) k = Some v \<longleftrightarrow>
      (k, v) \<in> set (element_entries c entries)"
    by (simp add: map_of_rev_distinct)
  then show "fst (render_props c ref entries) k = Some v \<longleftrightarrow>
      (k, v) \<in> set entries \<and> k \<noteq> ''__forwardedRef'' \<and> is_element_prop c k"
    by (auto simp: render_props_eq element_entries_def)
next
  fix before k v after
  assume a: "entries = before @ (k, v) # after \<and> k \<noteq> ''__forwardedRef'' \<and> \<not> is_element_prop c k \<and>
     react_name k \<notin> fst ` set (react_entries c after)"
  then have split: "react_entries c entries =
      react_entries c before @ (react_name k, v) # react_entries c after"
    by (simp add: react_entries_def)
  from a have "map_of (rev (react_entries c after)) (react_name k) = None"
    by (simp add: map_of_eq_None_iff)
  then have "map_of (rev (react_entries c entries)) (react_name k) = Some v"
    unfolding split by (simp add: map_add_def)
  then show "snd (render_props c ref entries) (react_name k) = Some v"
    by (simp add: render_props_eq map_add_def)
next
  show "fst (render_props c ref entries) ''__forwardedRef'' = None"
    by (auto simp: render_props_eq map_of_eq_None_iff element_entries_def)
  show "snd (render_props c ref entries) ''__forwardedRef'' = None"
    by (auto simp: render_props_eq map_add_def map_of_eq_None_iff react_entries_def
        react_name_def split: option.splits if_splits)
qed

text \<open>
  Props of the demo component: \<^verbatim>\<open>label\<close> is set on the element, \<^verbatim>\<open>className\<close> reaches
  createElement as \<^verbatim>\<open>class\<close>, and of \<^verbatim>\<open>class\<close> and \<^verbatim>\<open>className\<close> the later is passed.
\<close>

theorem render_routes_props_witness:
  "distinct (map fst [(''label'', ''Hi''), (''onActivate'', ''f''), (''className'', ''big''),
      (''title'', ''t''), (''__forwardedRef'', ''r0'')]) \<and>
   is_element_prop demo_component ''label'' \<and>
   \<not> is_element_prop demo_component ''className'' \<and>
   fst (render_props demo_component ''r'' [(''label'', ''Hi''), (''onActivate'', ''f''),
      (''className'', ''big''), (''title'', ''t''), (''__forwardedRef'', ''r0'')]) ''label'' = Some ''Hi'' \<and>
   snd (render_props demo_component ''r'' [(''label'', ''Hi''), (''onActivate'', ''f''),
      (''className'', ''big''), (''title'', ''t''), (''__forwardedRef'', ''r0'')]) ''class'' = Some ''big'' \<and>
   snd (render_props demo_component ''r'' [(''class'', ''a''), (''className'', ''b'')]) ''class'' =
      Some ''b''"
proof -
  let ?E = "[(''label'', ''Hi''), (''onActivate'', ''f''), (''className'', ''big''),
      (''title'', ''t''), (''__forwardedRef'', ''r0'')]"
  have d: "distinct (map fst ?E)" by simp
  have l: "is_element_prop demo_component ''label''"
    by (simp add: is_element_prop_def demo_component_def reservedReactProperties_def)
  have c: "\<not> is_element_prop demo_component ''className''"
    by (simp add: is_element_prop_def demo_component_def reservedReactProperties_def)
  have t: "\<not> is_element_prop demo_component ''title''"
    by (simp add: is_element_prop_def demo_component_def reservedReactProperties_def)
  note r = render_routes_props [of demo_component "''r''" ?E]
  from r [THEN conjunct2, THEN conjunct2, THEN conjunct1, rule_format, OF d,
      of "''label''" "''Hi''"] l
  have a: "fst (render_props demo_component ''r'' ?E) ''label'' = Some ''Hi''"
    by simp
  have after: "react_name ''className'' \<notin>
      fst ` set (react_entries demo_component [(''title'', ''t''), (''__forwardedRef'', ''r0'')])"
    by (simp add: react_entries_def react_name_def t)
  from r [THEN conjunct2, THEN conjunct2, THEN conjunct2, THEN conjunct1, rule_format,
      of "[(''label'', ''Hi''), (''onActivate'', ''f'')]" "''className''" "''big''"
        "[(''title'', ''t''), (''__forwardedRef'', ''r0'')]"] c after
  have b: "snd (render_props demo_component ''r'' ?E) ''class'' = Some ''big''"
    by (simp add: react_name_def)
  have after': "react_name ''className'' \<notin> fst ` set (react_entries demo_component ([] :: (string \<times> string) list))"
    by (simp add: react_entries_def)
  from render_routes_props [of demo_component "''r''" "[(''class'', ''a''), (''className'', ''b'')]",
      THEN conjunct2, THEN conjunct2, THEN conjunct2, THEN conjunct1, rule_format,
      of "[(''class'', ''a'')]" "''className''" "''b''" "[]"] c after'
  have e: "snd (render_props demo_component ''r'' [(''class'', ''a''), (''className'', ''b'')]) ''class'' =
      Some ''b''"
    by (simp add: react_name_def)
  from d l c a b e show ?thesis by blast
qed

end
